theory Spec2Isabelle
  imports Complex_Main "HOL-Library.Signed_Division"
begin

section \<open>Numbers\<close>

subsection \<open>Single-precision values\<close>

text \<open>
  The source computes in \<^verbatim>\<open>float\<close>. A value is a real number or one of the three
  special values of IEEE 754; the sign of zero is not modelled. The operations \<open>fadd\<close>,
  \<open>fmul\<close>, \<open>fdiv\<close> and \<open>fsqrt\<close> give the infinitely precise result on finite values. The
  special values follow IEEE 754: a finite non-zero number divided by zero is an
  infinity, zero divided by zero is \<open>NaN\<close>, and \<open>NaN\<close> propagates through every
  operation. No operation traps, exactly as in the source. The operations of binary32
  and binary64, which round the infinitely precise result, follow in the next
  subsection.
\<close>

datatype flt = Fin real | PInf | NInf | NaN

fun is_fin :: "flt \<Rightarrow> bool" where
  "is_fin (Fin x) = True"
| "is_fin PInf = False"
| "is_fin NInf = False"
| "is_fin NaN = False"

fun fneg :: "flt \<Rightarrow> flt" where
  "fneg (Fin x) = Fin (- x)"
| "fneg PInf = NInf"
| "fneg NInf = PInf"
| "fneg NaN = NaN"

fun fadd :: "flt \<Rightarrow> flt \<Rightarrow> flt" where
  "fadd (Fin x) (Fin y) = Fin (x + y)"
| "fadd NaN b = NaN"
| "fadd a NaN = NaN"
| "fadd PInf NInf = NaN"
| "fadd NInf PInf = NaN"
| "fadd PInf b = PInf"
| "fadd a PInf = PInf"
| "fadd NInf b = NInf"
| "fadd a NInf = NInf"

definition fsub :: "flt \<Rightarrow> flt \<Rightarrow> flt" where
  "fsub a b = fadd a (fneg b)"

text \<open>An infinity with the sign of a non-zero real.\<close>

definition inf_of_sign :: "real \<Rightarrow> flt" where
  "inf_of_sign s = (if 0 < s then PInf else NInf)"

fun fmul :: "flt \<Rightarrow> flt \<Rightarrow> flt" where
  "fmul (Fin x) (Fin y) = Fin (x * y)"
| "fmul NaN b = NaN"
| "fmul a NaN = NaN"
| "fmul PInf (Fin y) = (if y = 0 then NaN else inf_of_sign y)"
| "fmul NInf (Fin y) = (if y = 0 then NaN else inf_of_sign (- y))"
| "fmul (Fin x) PInf = (if x = 0 then NaN else inf_of_sign x)"
| "fmul (Fin x) NInf = (if x = 0 then NaN else inf_of_sign (- x))"
| "fmul PInf PInf = PInf"
| "fmul PInf NInf = NInf"
| "fmul NInf PInf = NInf"
| "fmul NInf NInf = PInf"

fun fdiv :: "flt \<Rightarrow> flt \<Rightarrow> flt" where
  "fdiv (Fin x) (Fin y) =
     (if y \<noteq> 0 then Fin (x / y) else if x = 0 then NaN else inf_of_sign x)"
| "fdiv NaN b = NaN"
| "fdiv a NaN = NaN"
| "fdiv (Fin x) PInf = Fin 0"
| "fdiv (Fin x) NInf = Fin 0"
| "fdiv PInf (Fin y) = (if 0 \<le> y then PInf else NInf)"
| "fdiv NInf (Fin y) = (if 0 \<le> y then NInf else PInf)"
| "fdiv PInf b = NaN"
| "fdiv NInf b = NaN"

fun fsqrt :: "flt \<Rightarrow> flt" where
  "fsqrt (Fin x) = (if 0 \<le> x then Fin (sqrt x) else NaN)"
| "fsqrt PInf = PInf"
| "fsqrt NInf = NaN"
| "fsqrt NaN = NaN"

text \<open>The comparisons \<^verbatim>\<open><\<close> and \<^verbatim>\<open>== 0\<close>; every comparison with \<open>NaN\<close> is false.\<close>

fun flt_less :: "flt \<Rightarrow> flt \<Rightarrow> bool" where
  "flt_less (Fin x) (Fin y) = (x < y)"
| "flt_less NaN b = False"
| "flt_less a NaN = False"
| "flt_less NInf NInf = False"
| "flt_less NInf b = True"
| "flt_less a NInf = False"
| "flt_less PInf b = False"
| "flt_less a PInf = True"

definition flt_is_zero :: "flt \<Rightarrow> bool" where
  "flt_is_zero a = (a = Fin 0)"

text \<open>The real value of an \<^verbatim>\<open>int\<close>.\<close>

definition flt_of_int :: "int \<Rightarrow> flt" where
  "flt_of_int n = Fin (of_int n)"

text \<open>
  \<^verbatim>\<open>static_cast<int>\<close> of a \<^verbatim>\<open>float\<close>: truncation towards zero. The cast is undefined
  for a value that is not finite or whose truncation does not fit 32 bits.
\<close>

definition flt_to_int :: "flt \<Rightarrow> int option" where
  "flt_to_int a =
     (case a of
        Fin x \<Rightarrow>
          (let t = (if 0 \<le> x then \<lfloor>x\<rfloor> else \<lceil>x\<rceil>)
           in if - 2147483648 \<le> t \<and> t \<le> 2147483647 then Some t else None)
      | _ \<Rightarrow> None)"

subsection \<open>Rounding\<close>

text \<open>
  \<open>pow2 e\<close> is \<open>2\<^sup>e\<close>. \<open>expo x\<close> is the binary exponent of a non-zero \<open>x\<close>: the \<open>e\<close> with
  \<open>2\<^sup>e \<le> |x| < 2\<^sup>e\<^sup>+\<^sup>1\<close>, found by halving or doubling.
\<close>

definition pow2 :: "int \<Rightarrow> real" where
  "pow2 e = (if 0 \<le> e then 2 ^ nat e else 1 / 2 ^ nat (- e))"

function expo_up :: "real \<Rightarrow> int" where
  "expo_up x = (if 2 \<le> x then expo_up (x / 2) + 1 else 0)"
  by auto
termination
proof (relation "measure (\<lambda>x. nat \<lfloor>x\<rfloor>)")
  show "wf (measure (\<lambda>x. nat \<lfloor>x\<rfloor>))" by simp
next
  fix x :: real assume x: "2 \<le> x"
  have "of_int \<lfloor>x / 2\<rfloor> \<le> x / 2" by (rule of_int_floor_le)
  then have "of_int \<lfloor>x / 2\<rfloor> \<le> x - 1" using x by linarith
  then have "\<lfloor>x / 2\<rfloor> < \<lfloor>x\<rfloor>" by linarith
  moreover have "0 < \<lfloor>x\<rfloor>" using x by linarith
  ultimately show "(x / 2, x) \<in> measure (\<lambda>x. nat \<lfloor>x\<rfloor>)" by simp
qed

function expo_down :: "real \<Rightarrow> int" where
  "expo_down x = (if 0 < x \<and> x < 1 then expo_down (2 * x) - 1 else 0)"
  by auto
termination
proof (relation "measure (\<lambda>x. nat \<lceil>1 / x\<rceil>)")
  show "wf (measure (\<lambda>x. nat \<lceil>1 / x\<rceil>))" by simp
next
  fix x :: real assume x: "0 < x \<and> x < 1"
  then have a: "1 < 1 / x" by simp
  have "1 / (2 * x) = (1 / x) / 2" by simp
  also have "\<dots> \<le> of_int \<lceil>1 / x\<rceil> / 2" by (simp add: divide_right_mono)
  finally have "\<lceil>1 / (2 * x)\<rceil> \<le> \<lceil>of_int \<lceil>1 / x\<rceil> / (2::real)\<rceil>" by (rule ceiling_mono)
  moreover have "2 \<le> \<lceil>1 / x\<rceil>" using a by linarith
  then have "\<lceil>of_int \<lceil>1 / x\<rceil> / (2::real)\<rceil> < \<lceil>1 / x\<rceil>" by linarith
  ultimately have "\<lceil>1 / (2 * x)\<rceil> < \<lceil>1 / x\<rceil>" by linarith
  moreover have "0 < \<lceil>1 / x\<rceil>" using a by linarith
  ultimately show "(2 * x, x) \<in> measure (\<lambda>x. nat \<lceil>1 / x\<rceil>)" by simp
qed

declare expo_up.simps [simp del] expo_down.simps [simp del]

definition expo :: "real \<Rightarrow> int" where
  "expo x = (if 1 \<le> \<bar>x\<bar> then expo_up \<bar>x\<bar> else expo_down \<bar>x\<bar>)"

text \<open>The integer nearest to \<open>y\<close>, the even one of two that are equally near.\<close>

definition rne :: "real \<Rightarrow> int" where
  "rne y =
     (let f = \<lfloor>y\<rfloor>; d = y - of_int f
      in if d < 1 / 2 then f else if 1 / 2 < d then f + 1 else if even f then f else f + 1)"

text \<open>
  Rounding to nearest, ties to even, in a binary format of precision \<open>p\<close> with the
  exponents \<open>emin\<close> to \<open>emax\<close>, subnormal numbers included. \<open>ulp p emin x\<close> is the distance
  between the numbers of the format near \<open>x\<close>; a result whose magnitude reaches
  \<open>2\<^sup>e\<^sup>m\<^sup>a\<^sup>x\<^sup>+\<^sup>1\<close> overflows to the infinity of its sign.
\<close>

definition ulp :: "nat \<Rightarrow> int \<Rightarrow> real \<Rightarrow> real" where
  "ulp p emin x = pow2 (max (expo x) emin - int p + 1)"

definition rnd :: "nat \<Rightarrow> int \<Rightarrow> int \<Rightarrow> real \<Rightarrow> flt" where
  "rnd p emin emax x =
     (let q = ulp p emin x;
          y = of_int (rne (x / q)) * q
      in if pow2 (emax + 1) \<le> \<bar>y\<bar> then inf_of_sign x else Fin y)"

text \<open>\<^verbatim>\<open>float\<close> is binary32 and \<^verbatim>\<open>double\<close> is binary64.\<close>

definition round32 :: "real \<Rightarrow> flt" where
  "round32 = rnd 24 (- 126) 127"

definition round64 :: "real \<Rightarrow> flt" where
  "round64 = rnd 53 (- 1022) 1023"

fun to32 :: "flt \<Rightarrow> flt" where
  "to32 (Fin x) = round32 x"
| "to32 PInf = PInf"
| "to32 NInf = NInf"
| "to32 NaN = NaN"

fun to64 :: "flt \<Rightarrow> flt" where
  "to64 (Fin x) = round64 x"
| "to64 PInf = PInf"
| "to64 NInf = NInf"
| "to64 NaN = NaN"

text \<open>
  The operations of the source on \<^verbatim>\<open>float\<close> and on \<^verbatim>\<open>double\<close>: the infinitely precise
  result, rounded once. Every operation is rounded by itself (no fused multiply-add), and
  an expression of \<^verbatim>\<open>float\<close> operands is evaluated in \<^verbatim>\<open>float\<close>. \<open>to32\<close> is also the
  store of a \<^verbatim>\<open>double\<close> into a \<^verbatim>\<open>float\<close>; a \<^verbatim>\<open>float\<close> is a \<^verbatim>\<open>double\<close> as it is.
  \<open>of_int32\<close> is the conversion of an \<^verbatim>\<open>int\<close> to \<^verbatim>\<open>float\<close>.
\<close>

definition add32 :: "flt \<Rightarrow> flt \<Rightarrow> flt" where
  "add32 a b = to32 (fadd a b)"

definition sub32 :: "flt \<Rightarrow> flt \<Rightarrow> flt" where
  "sub32 a b = to32 (fsub a b)"

definition mul32 :: "flt \<Rightarrow> flt \<Rightarrow> flt" where
  "mul32 a b = to32 (fmul a b)"

definition div32 :: "flt \<Rightarrow> flt \<Rightarrow> flt" where
  "div32 a b = to32 (fdiv a b)"

definition sqrt32 :: "flt \<Rightarrow> flt" where
  "sqrt32 a = to32 (fsqrt a)"

definition of_int32 :: "int \<Rightarrow> flt" where
  "of_int32 n = to32 (flt_of_int n)"

definition add64 :: "flt \<Rightarrow> flt \<Rightarrow> flt" where
  "add64 a b = to64 (fadd a b)"

definition sub64 :: "flt \<Rightarrow> flt \<Rightarrow> flt" where
  "sub64 a b = to64 (fsub a b)"

definition mul64 :: "flt \<Rightarrow> flt \<Rightarrow> flt" where
  "mul64 a b = to64 (fmul a b)"

definition div64 :: "flt \<Rightarrow> flt \<Rightarrow> flt" where
  "div64 a b = to64 (fdiv a b)"

definition sqrt64 :: "flt \<Rightarrow> flt" where
  "sqrt64 a = to64 (fsqrt a)"

subsection \<open>32-bit integers\<close>

text \<open>
  \<^verbatim>\<open>int\<close> is 32 bits wide. \<open>wrap32\<close> is the two's-complement result of an operation
  whose exact value is its argument.
\<close>

definition wrap32 :: "int \<Rightarrow> int" where
  "wrap32 x = (x + 2147483648) mod 4294967296 - 2147483648"

definition in32 :: "int \<Rightarrow> bool" where
  "in32 x = (- 2147483648 \<le> x \<and> x \<le> 2147483647)"

section \<open>Images\<close>

text \<open>
  Modelled from the spec: the class \<^verbatim>\<open>Image\<close> of \<^verbatim>\<open>Image.hpp\<close> is not part of the
  sources at hand. It is a dense array of shape (rows, columns, channels) in
  channel-interleaved, pixel-major layout; the element at \<open>(col, row, ch)\<close> has the linear
  index \<open>(row * columns + col) * channels + ch\<close>; a new image is filled with zeros and
  has one channel unless told otherwise. An access outside the array is undefined in the
  source.
\<close>

record Image =
  rows :: nat
  columns :: nat
  channels :: nat
  data :: "flt list"

definition new_image :: "nat \<Rightarrow> nat \<Rightarrow> nat \<Rightarrow> Image" where
  "new_image r c ch =
     \<lparr>rows = r, columns = c, channels = ch, data = replicate (r * c * ch) (Fin 0)\<rparr>"

definition wf_image :: "Image \<Rightarrow> bool" where
  "wf_image img = (length (data img) = rows img * columns img * channels img)"

definition finite_image :: "Image \<Rightarrow> bool" where
  "finite_image img = list_all is_fin (data img)"

definition pos :: "Image \<Rightarrow> nat \<Rightarrow> nat \<Rightarrow> nat \<Rightarrow> nat" where
  "pos img col row ch = (row * columns img + col) * channels img + ch"

text \<open>\<^verbatim>\<open>img.val(col, row, ch)\<close> as a read and as a write, for indices inside the array.\<close>

definition val :: "Image \<Rightarrow> nat \<Rightarrow> nat \<Rightarrow> nat \<Rightarrow> flt" where
  "val img col row ch = data img ! pos img col row ch"

definition set_val :: "Image \<Rightarrow> nat \<Rightarrow> nat \<Rightarrow> nat \<Rightarrow> flt \<Rightarrow> Image" where
  "set_val img col row ch v = img\<lparr>data := (data img)[pos img col row ch := v]\<rparr>"

text \<open>
  The same accesses where the index is computed from a caller's signed coordinates and
  may leave the array: \<open>None\<close> is the undefined access.
\<close>

definition ipos :: "Image \<Rightarrow> int \<Rightarrow> int \<Rightarrow> int \<Rightarrow> int" where
  "ipos img col row ch = (row * int (columns img) + col) * int (channels img) + ch"

definition rd :: "Image \<Rightarrow> int \<Rightarrow> flt option" where
  "rd img i = (if 0 \<le> i \<and> i < int (length (data img)) then Some (data img ! nat i) else None)"

definition wr :: "Image \<Rightarrow> int \<Rightarrow> flt \<Rightarrow> Image option" where
  "wr img i v =
     (if 0 \<le> i \<and> i < int (length (data img)) then Some (img\<lparr>data := (data img)[nat i := v]\<rparr>)
      else None)"

text \<open>A counted loop whose body may fail: the first failure ends the loop.\<close>

fun for_loop :: "nat list \<Rightarrow> (nat \<Rightarrow> 's \<Rightarrow> 's option) \<Rightarrow> 's \<Rightarrow> 's option" where
  "for_loop [] body s = Some s"
| "for_loop (i # is) body s =
     (case body i s of None \<Rightarrow> None | Some s' \<Rightarrow> for_loop is body s')"

section \<open>Colour transform\<close>

definition ColorTransform_pixel :: "Image \<Rightarrow> nat \<Rightarrow> nat \<Rightarrow> Image" where
  "ColorTransform_pixel img row col =
     (let r = val img col row 0;
          g = val img col row 1;
          b = val img col row 2;
          img = set_val img col row 0 (fdiv (fadd (fadd r g) b) (Fin (sqrt 3)));
          img = set_val img col row 1 (fdiv (fsub r b) (Fin (sqrt 2)));
          img = set_val img col row 2 (fdiv (fadd (fsub r (fmul (Fin 2) g)) b) (Fin (sqrt 6)))
      in img)"

definition ColorTransform :: "Image \<Rightarrow> Image" where
  "ColorTransform img =
     (if channels img = 3
      then fold (\<lambda>row. fold (\<lambda>col im. ColorTransform_pixel im row col) [0..<columns img])
             [0..<rows img] img
      else img)"

definition ColorTransformInverse_pixel :: "Image \<Rightarrow> nat \<Rightarrow> nat \<Rightarrow> Image" where
  "ColorTransformInverse_pixel img row col =
     (let y = val img col row 0;
          u = val img col row 1;
          v = val img col row 2;
          img = set_val img col row 0
                  (fdiv (fadd (fadd (fmul (Fin (sqrt 2)) y) (fmul (Fin (sqrt 3)) u)) v)
                     (Fin (sqrt 6)));
          img = set_val img col row 1 (fdiv (fsub y (fmul (Fin (sqrt 2)) v)) (Fin (sqrt 3)));
          img = set_val img col row 2
                  (fdiv (fadd (fsub (fmul (Fin (sqrt 2)) y) (fmul (Fin (sqrt 3)) u)) v)
                     (Fin (sqrt 6)))
      in img)"

definition ColorTransformInverse :: "Image \<Rightarrow> Image" where
  "ColorTransformInverse img =
     (if channels img = 3
      then fold (\<lambda>row. fold (\<lambda>col im. ColorTransformInverse_pixel im row col) [0..<columns img])
             [0..<rows img] img
      else img)"

section \<open>Symmetric coordinates\<close>

text \<open>
  \<^verbatim>\<open>%\<close> truncates towards zero (\<open>smod\<close>) and is undefined for a zero divisor: \<open>None\<close>.
\<close>

definition SymmetricCoordinate :: "int \<Rightarrow> int \<Rightarrow> int option" where
  "SymmetricCoordinate p sz =
     (let pos1 = (if p < 0 then wrap32 (wrap32 (- p) - 1) else p);
          two_size = wrap32 (2 * sz)
      in if pos1 \<ge> two_size \<and> two_size = 0 then None
         else
           let pos2 = (if pos1 \<ge> two_size then pos1 smod two_size else pos1);
               pos3 = (if pos2 \<ge> sz then wrap32 (wrap32 (two_size - 1) - pos2) else pos2)
           in Some pos3)"

section \<open>Tiling\<close>

text \<open>
  The two \<^verbatim>\<open>while\<close> loops of \<^verbatim>\<open>ComputeTiling\<close>. \<open>None\<close> is a loop that does not return:
  it runs forever, or reaches the undefined \<^verbatim>\<open>tiles % 0\<close>.
\<close>

partial_function (option) lower_divisor :: "int \<Rightarrow> int \<Rightarrow> int option" where
  "lower_divisor tiles r_low =
     (if r_low = 0 then None
      else if tiles smod r_low \<noteq> 0 then lower_divisor tiles (r_low - 1)
      else Some r_low)"

partial_function (option) upper_divisor :: "int \<Rightarrow> int \<Rightarrow> int option" where
  "upper_divisor tiles r_up =
     (if r_up = 0 then None
      else if tiles smod r_up \<noteq> 0 then upper_divisor tiles (r_up + 1)
      else Some r_up)"

text \<open>
  \<^verbatim>\<open>ComputeTiling\<close>. \<^verbatim>\<open>best_r\<close> is computed in \<^verbatim>\<open>float\<close>: the product \<^verbatim>\<open>tiles * rows\<close> and
  \<^verbatim>\<open>columns\<close> are converted, divided, and the square root is \<^verbatim>\<open>std::sqrt\<close> on \<^verbatim>\<open>float\<close>.
  \<^verbatim>\<open>/\<close> on \<^verbatim>\<open>int\<close> truncates towards zero (\<open>sdiv\<close>); the result is \<open>None\<close> where the cast
  of \<^verbatim>\<open>best_r\<close> to \<^verbatim>\<open>int\<close> is undefined or a loop does not return.
\<close>

definition ComputeTiling :: "int \<Rightarrow> int \<Rightarrow> int \<Rightarrow> (int \<times> int) option" where
  "ComputeTiling rws cols tiles =
     (let best_r = sqrt32 (div32 (of_int32 (wrap32 (tiles * rws))) (of_int32 cols))
      in case flt_to_int best_r of
           None \<Rightarrow> None
         | Some r_low \<Rightarrow>
             (let r_up = wrap32 (r_low + 1)
              in if r_low < 1 then Some (1, tiles)
                 else if r_up > tiles then Some (tiles, 1)
                 else
                   (case lower_divisor tiles r_low of
                      None \<Rightarrow> None
                    | Some lo \<Rightarrow>
                        (case upper_divisor tiles r_up of
                           None \<Rightarrow> None
                         | Some up \<Rightarrow>
                             if wrap32 (wrap32 (up * lo) * cols) > wrap32 (tiles * rws)
                             then Some (lo, tiles sdiv lo)
                             else Some (up, tiles sdiv up)))))"

section \<open>Patch extraction\<close>

definition ExtractPatch :: "Image \<Rightarrow> int \<Rightarrow> int \<Rightarrow> Image \<Rightarrow> Image option" where
  "ExtractPatch src pr pc dst =
     for_loop [0..<rows dst] (\<lambda>row.
       for_loop [0..<columns dst] (\<lambda>col.
         for_loop [0..<channels dst] (\<lambda>chan d.
           case rd src (ipos src (pc + int col) (pr + int row) (int chan)) of
             None \<Rightarrow> None
           | Some v \<Rightarrow> wr d (ipos d (int col) (int row) (int chan)) v))) dst"

text \<open>The state of the loops of \<^verbatim>\<open>FastExtractPatch\<close>: the counters \<open>i\<close>, \<open>j\<close> and the patch.\<close>

definition FastExtractPatch_loops :: "Image \<Rightarrow> int \<Rightarrow> int \<Rightarrow> Image \<Rightarrow> (int \<times> int \<times> Image) option" where
  "FastExtractPatch_loops src pr pc dst =
     for_loop [0..<rows dst] (\<lambda>row s.
       case for_loop [0..<columns dst * channels dst] (\<lambda>el (i, j, d).
              case rd src j of
                None \<Rightarrow> None
              | Some v \<Rightarrow> (case wr d i v of None \<Rightarrow> None | Some d' \<Rightarrow> Some (i + 1, j + 1, d'))) s
       of None \<Rightarrow> None
        | Some (i, j, d) \<Rightarrow>
            Some (i, j + (int (columns src) - int (columns dst)) * int (channels src), d))
       (0, (pr * int (columns src) + pc) * int (channels src), dst)"

definition FastExtractPatch :: "Image \<Rightarrow> int \<Rightarrow> int \<Rightarrow> Image \<Rightarrow> Image option" where
  "FastExtractPatch src pr pc dst =
     (case FastExtractPatch_loops src pr pc dst of
        None \<Rightarrow> None
      | Some (i, j, d) \<Rightarrow> Some d)"

section \<open>Regression plane\<close>

text \<open>
  The patch radius \<open>r\<close> is an \<^verbatim>\<open>int\<close> in the source; it is never negative where the
  functions below are called, and is a natural number here. \<open>int row - int r\<close> is the
  source's signed difference \<^verbatim>\<open>row - r\<close>. The array \<^verbatim>\<open>reg_plane\<close> is the list of its rows,
  one pair per channel.
\<close>

definition ComputeRegressionPlane ::
    "Image \<Rightarrow> Image \<Rightarrow> Image \<Rightarrow> nat \<Rightarrow> (flt \<times> flt) list" where
  "ComputeRegressionPlane y g k r =
     (let (a, b, c) =
            fold (\<lambda>row. fold (\<lambda>col (a, b, c).
                (fadd a (fmul (flt_of_int ((int row - int r) * (int row - int r))) (val k col row 0)),
                 fadd b (fmul (flt_of_int ((int row - int r) * (int col - int r))) (val k col row 0)),
                 fadd c (fmul (flt_of_int ((int col - int r) * (int col - int r))) (val k col row 0))))
              [0..<columns y]) [0..<rows y] (Fin 0, Fin 0, Fin 0);
          det = fsub (fmul a c) (fmul b b)
      in if flt_is_zero det
         then map (\<lambda>chan. (Fin 0, Fin 0)) [0..<channels y]
         else map (\<lambda>chan.
                let central = val g r r chan;
                    (d, e) =
                      fold (\<lambda>row. fold (\<lambda>col (d, e).
                          (fadd d (fmul (fmul (flt_of_int (int row - int r))
                                           (fsub (val y col row chan) central)) (val k col row 0)),
                           fadd e (fmul (fmul (flt_of_int (int col - int r))
                                           (fsub (val y col row chan) central)) (val k col row 0))))
                        [0..<columns y]) [0..<rows y] (Fin 0, Fin 0)
                in (fdiv (fsub (fmul c d) (fmul b e)) det,
                    fdiv (fsub (fmul a e) (fmul b d)) det))
              [0..<channels y])"

section \<open>Bilateral weights and planes\<close>

text \<open>
  The fast exponential \<^verbatim>\<open>utils::fastexp\<close> of \<^verbatim>\<open>Utils.hpp\<close> is not part of the sources
  at hand. Every function that calls it takes it as its first argument \<open>fastexp\<close>.
\<close>

definition BilateralWeight ::
    "(flt \<Rightarrow> flt) \<Rightarrow> Image \<Rightarrow> Image \<Rightarrow> nat \<Rightarrow> flt \<Rightarrow> flt \<Rightarrow> Image" where
  "BilateralWeight fastexp g k r gamma_r_sigma2 sigma_s2 =
     fold (\<lambda>row. fold (\<lambda>col k.
         let x = fold (\<lambda>chan x.
                    let y = fsub (val g col row chan) (val g r r chan)
                    in fadd x (fmul y y)) [0..<channels g] (Fin 0);
             x = fdiv x gamma_r_sigma2;
             x = fadd x (fdiv (flt_of_int ((int row - int r) * (int row - int r) +
                                           (int col - int r) * (int col - int r)))
                           (fmul (Fin 2) sigma_s2))
         in set_val k col row 0 (fastexp (fneg x))) [0..<columns g]) [0..<rows g] k"

definition SubtractPlane :: "nat \<Rightarrow> (flt \<times> flt) list \<Rightarrow> Image \<Rightarrow> Image" where
  "SubtractPlane r reg_plane y =
     fold (\<lambda>row. fold (\<lambda>col. fold (\<lambda>chan y.
         set_val y col row chan
           (fsub (val y col row chan)
              (fadd (fmul (fst (reg_plane ! chan)) (flt_of_int (int row - int r)))
                    (fmul (snd (reg_plane ! chan)) (flt_of_int (int col - int r))))))
         [0..<channels y]) [0..<columns y]) [0..<rows y] y"

definition AddPlane :: "nat \<Rightarrow> (flt \<times> flt) list \<Rightarrow> Image \<Rightarrow> Image" where
  "AddPlane r reg_plane y =
     fold (\<lambda>row. fold (\<lambda>col. fold (\<lambda>chan y.
         set_val y col row chan
           (fadd (val y col row chan)
              (fadd (fmul (fst (reg_plane ! chan)) (flt_of_int (int row - int r)))
                    (fmul (snd (reg_plane ! chan)) (flt_of_int (int col - int r))))))
         [0..<channels y]) [0..<columns y]) [0..<rows y] y"

section \<open>DFT patches\<close>

text \<open>
  Modelled from the spec: the class \<^verbatim>\<open>DftPatch\<close> of \<^verbatim>\<open>DftPatch.hpp\<close> is not part of the
  sources at hand. It holds a complex value per (column, row, channel) in a space-domain
  and in a frequency-domain buffer; here each buffer is a pair of images, the real and
  the imaginary parts. \<^verbatim>\<open>ToFreq\<close> is the forward two-dimensional DFT of every channel,
  \<^verbatim>\<open>ToSpace\<close> the inverse DFT, which divides by the number of elements of a channel. Both
  are the defining sums of the DFT, evaluated in the arithmetic of the values.
\<close>

record DftPatch =
  space_re :: Image
  space_im :: Image
  freq_re :: Image
  freq_im :: Image

definition new_dft_patch :: "nat \<Rightarrow> nat \<Rightarrow> nat \<Rightarrow> DftPatch" where
  "new_dft_patch r c ch =
     \<lparr>space_re = new_image r c ch, space_im = new_image r c ch,
      freq_re = new_image r c ch, freq_im = new_image r c ch\<rparr>"

definition dft_bin :: "real \<Rightarrow> Image \<Rightarrow> Image \<Rightarrow> nat \<Rightarrow> nat \<Rightarrow> nat \<Rightarrow> flt \<times> flt" where
  "dft_bin dir re im u v chan =
     fold (\<lambda>row. fold (\<lambda>col (ar, ai).
         let theta = dir * 2 * pi * (real u * real col / real (columns re) +
                                     real v * real row / real (rows re));
             c = Fin (cos theta);
             s = Fin (sin theta);
             xr = val re col row chan;
             xi = val im col row chan
         in (fadd ar (fsub (fmul xr c) (fmul xi s)), fadd ai (fadd (fmul xr s) (fmul xi c))))
       [0..<columns re]) [0..<rows re] (Fin 0, Fin 0)"

definition dft2d :: "real \<Rightarrow> flt \<Rightarrow> Image \<Rightarrow> Image \<Rightarrow> Image \<times> Image" where
  "dft2d dir scale re im =
     (let bin = (\<lambda>i. dft_bin dir re im ((i div channels re) mod columns re)
                        (i div (channels re * columns re)) (i mod channels re));
          n = rows re * columns re * channels re
      in (re\<lparr>data := map (\<lambda>i. fdiv (fst (bin i)) scale) [0..<n]\<rparr>,
          im\<lparr>data := map (\<lambda>i. fdiv (snd (bin i)) scale) [0..<n]\<rparr>))"

definition ToFreq :: "DftPatch \<Rightarrow> DftPatch" where
  "ToFreq p =
     (case dft2d (- 1) (Fin 1) (space_re p) (space_im p) of
        (re, im) \<Rightarrow> p\<lparr>freq_re := re, freq_im := im\<rparr>)"

definition ToSpace :: "DftPatch \<Rightarrow> DftPatch" where
  "ToSpace p =
     (case dft2d 1 (Fin (real (rows (freq_re p) * columns (freq_re p))))
             (freq_re p) (freq_im p) of
        (re, im) \<Rightarrow> p\<lparr>space_re := re, space_im := im\<rparr>)"

text \<open>
  \<^verbatim>\<open>ModifyPatch\<close> returns the patch and the averages, one per channel; the caller that
  passes no \<^verbatim>\<open>average\<close> ignores them.
\<close>

definition ModifyPatch :: "Image \<Rightarrow> Image \<Rightarrow> DftPatch \<Rightarrow> DftPatch \<times> flt list" where
  "ModifyPatch patch k modified =
     (let weight = fold (\<lambda>row. fold (\<lambda>col w. fadd w (val k col row 0)) [0..<columns k])
                     [0..<rows k] (Fin 0)
      in fold (\<lambda>chan (modified, average).
           let avg = fold (\<lambda>row. fold (\<lambda>col a.
                         fadd a (fmul (val k col row 0) (val patch col row chan)))
                       [0..<columns patch]) [0..<rows patch] (Fin 0);
               avg = fdiv avg weight;
               modified = fold (\<lambda>row. fold (\<lambda>col m.
                              m\<lparr>space_re := set_val (space_re m) col row chan
                                     (fadd (fmul (val k col row 0) (val patch col row chan))
                                        (fmul (fsub (Fin 1) (val k col row 0)) avg)),
                                space_im := set_val (space_im m) col row chan (Fin 0)\<rparr>)
                            [0..<columns patch]) [0..<rows patch] modified
           in (modified, average @ [avg]))
         [0..<channels patch] (modified, []))"

section \<open>Weight map\<close>

text \<open>
  Modelled from the spec: the class \<^verbatim>\<open>WeightMap\<close> of \<^verbatim>\<open>WeightMap.hpp\<close> is not part of the
  sources at hand. It is a grid of values, zero at first, with a cached minimum, the
  position of that minimum and a flag that the cache is stale. \<^verbatim>\<open>Minimum\<close> and
  \<^verbatim>\<open>FindMinimum\<close> rescan the grid in row-major order when the flag is set, the first
  smallest cell winning. \<^verbatim>\<open>IncreaseWeights\<close> adds \<open>k(\<Delta>col, \<Delta>row)\<close> to the cell
  \<open>(row0 + \<Delta>row, col0 + \<Delta>col)\<close> for every offset of the patch whose cell lies in the grid, and
  sets the flag when it updates the cell of the cached minimum. A new map has the flag
  set.
\<close>

record WeightMap =
  wm_rows :: nat
  wm_columns :: nat
  wm_data :: "flt list"
  wm_minimum :: flt
  wm_min_row :: nat
  wm_min_col :: nat
  wm_pending :: bool

definition new_weight_map :: "nat \<Rightarrow> nat \<Rightarrow> WeightMap" where
  "new_weight_map r c =
     \<lparr>wm_rows = r, wm_columns = c, wm_data = replicate (r * c) (Fin 0),
      wm_minimum = Fin 0, wm_min_row = 0, wm_min_col = 0, wm_pending = True\<rparr>"

definition wm_scan_cell :: "nat \<Rightarrow> nat \<Rightarrow> WeightMap \<Rightarrow> WeightMap" where
  "wm_scan_cell row col m =
     (if flt_less (wm_data m ! (row * wm_columns m + col)) (wm_minimum m)
      then m\<lparr>wm_minimum := wm_data m ! (row * wm_columns m + col),
             wm_min_row := row, wm_min_col := col\<rparr>
      else m)"

definition wm_scan :: "WeightMap \<Rightarrow> WeightMap" where
  "wm_scan m =
     fold (\<lambda>row. fold (\<lambda>col. wm_scan_cell row col) [0..<wm_columns m]) [0..<wm_rows m]
       (m\<lparr>wm_minimum := wm_data m ! 0, wm_min_row := 0, wm_min_col := 0, wm_pending := False\<rparr>)"

definition wm_refresh :: "WeightMap \<Rightarrow> WeightMap" where
  "wm_refresh m = (if wm_pending m then wm_scan m else m)"

definition Minimum :: "WeightMap \<Rightarrow> flt \<times> WeightMap" where
  "Minimum m = (wm_minimum (wm_refresh m), wm_refresh m)"

definition FindMinimum :: "WeightMap \<Rightarrow> (nat \<times> nat) \<times> WeightMap" where
  "FindMinimum m = ((wm_min_row (wm_refresh m), wm_min_col (wm_refresh m)), wm_refresh m)"

definition IncreaseWeights_cell :: "Image \<Rightarrow> int \<Rightarrow> int \<Rightarrow> nat \<Rightarrow> nat \<Rightarrow> WeightMap \<Rightarrow> WeightMap" where
  "IncreaseWeights_cell k row0 col0 drow dcol m =
     (let row = row0 + int drow; col = col0 + int dcol
      in if 0 \<le> row \<and> row < int (wm_rows m) \<and> 0 \<le> col \<and> col < int (wm_columns m)
         then
           let i = nat row * wm_columns m + nat col;
               m = m\<lparr>wm_data := (wm_data m)[i := fadd (wm_data m ! i) (val k dcol drow 0)]\<rparr>
           in if nat row = wm_min_row m \<and> nat col = wm_min_col m
              then m\<lparr>wm_pending := True\<rparr> else m
         else m)"

definition IncreaseWeights :: "WeightMap \<Rightarrow> Image \<Rightarrow> int \<Rightarrow> int \<Rightarrow> WeightMap" where
  "IncreaseWeights m k row0 col0 =
     fold (\<lambda>drow. fold (\<lambda>dcol. IncreaseWeights_cell k row0 col0 drow dcol) [0..<columns k])
       [0..<rows k] m"

section \<open>The block driver\<close>

text \<open>
  Modelled from the spec: \<^verbatim>\<open>utils::NextPowerOf2\<close> of \<^verbatim>\<open>Utils.hpp\<close> is not part of the
  sources at hand; it is the smallest power of two that is not below its argument.
\<close>

function NextPowerOf2 :: "nat \<Rightarrow> nat" where
  "NextPowerOf2 n = (if n \<le> 1 then 1 else 2 * NextPowerOf2 ((n + 1) div 2))"
  by pat_completeness auto
termination
  by (relation "measure id") auto

text \<open>The variables of \<^verbatim>\<open>DA3D_block\<close> that live across the iterations of its main loop.\<close>

record block_state =
  st_y :: Image
  st_g :: Image
  st_k_reg :: Image
  st_k :: Image
  st_y_m :: DftPatch
  st_g_m :: DftPatch
  st_agg_weights :: WeightMap
  st_output :: Image
  st_weights :: Image

text \<open>The shrinkage of the spectrum of \<open>y_m\<close> (lines 322 to 341 of the source).\<close>

definition shrinkage :: "(flt \<Rightarrow> flt) \<Rightarrow> flt \<Rightarrow> flt \<Rightarrow> Image \<Rightarrow> DftPatch \<Rightarrow> DftPatch \<Rightarrow> DftPatch" where
  "shrinkage fastexp sigma2 gamma_f k g_m y_m =
     (let sigma_f2 = fold (\<lambda>row. fold (\<lambda>col s.
                         fadd s (fmul (val k col row 0) (val k col row 0))) [0..<columns k])
                       [0..<rows k] (Fin 0);
          sigma_f2 = fmul sigma_f2 sigma2
      in fold (\<lambda>row. fold (\<lambda>col. fold (\<lambda>chan y_m.
           if row \<noteq> 0 \<or> col \<noteq> 0
           then
             let G2 = fadd (fmul (val (freq_re g_m) col row chan) (val (freq_re g_m) col row chan))
                           (fmul (val (freq_im g_m) col row chan) (val (freq_im g_m) col row chan));
                 K = fastexp (fdiv (fmul (fneg gamma_f) sigma_f2) G2);
                 y_m = y_m\<lparr>freq_re := set_val (freq_re y_m) col row chan
                                         (fmul (val (freq_re y_m) col row chan) K)\<rparr>;
                 y_m = y_m\<lparr>freq_im := set_val (freq_im y_m) col row chan
                                         (fmul (val (freq_im y_m) col row chan) K)\<rparr>
             in y_m
           else y_m)
         [0..<channels (freq_re y_m)]) [0..<columns (freq_re y_m)]) [0..<rows (freq_re y_m)] y_m)"

text \<open>
  The aggregation (lines 346 to 357): the state of the loops is the output, the mask
  \<open>k\<close>, which is squared in place, and the weights.
\<close>

definition aggregate_pixel ::
    "nat \<Rightarrow> nat \<Rightarrow> nat \<Rightarrow> (flt \<times> flt) list \<Rightarrow> flt list \<Rightarrow> DftPatch \<Rightarrow> nat \<Rightarrow> nat \<Rightarrow>
     Image \<times> Image \<times> Image \<Rightarrow> Image \<times> Image \<times> Image" where
  "aggregate_pixel r pr pc reg_plane yt y_m row col =
     (\<lambda>(output, k, weights).
         let output =
               fold (\<lambda>chan output.
                   set_val output (col + pc) (row + pr) chan
                     (fadd (val output (col + pc) (row + pr) chan)
                        (fmul
                           (fsub
                              (fadd (val (space_re y_m) col row chan)
                                 (fmul
                                    (fadd (fmul (fst (reg_plane ! chan)) (flt_of_int (int row - int r)))
                                          (fmul (snd (reg_plane ! chan)) (flt_of_int (int col - int r))))
                                    (val k col row 0)))
                              (fmul (fsub (Fin 1) (val k col row 0)) (yt ! chan)))
                           (val k col row 0))))
                 [0..<channels output] output;
             k = set_val k col row 0 (fmul (val k col row 0) (val k col row 0));
             weights = set_val weights (col + pc) (row + pr) 0
                         (fadd (val weights (col + pc) (row + pr) 0) (val k col row 0))
         in (output, k, weights))"

definition aggregate ::
    "nat \<Rightarrow> nat \<Rightarrow> nat \<Rightarrow> nat \<Rightarrow> (flt \<times> flt) list \<Rightarrow> flt list \<Rightarrow> DftPatch \<Rightarrow>
     Image \<times> Image \<times> Image \<Rightarrow> Image \<times> Image \<times> Image" where
  "aggregate s r pr pc reg_plane yt y_m =
     fold (\<lambda>row. fold (\<lambda>col. aggregate_pixel r pr pc reg_plane yt y_m row col) [0..<s]) [0..<s]"

text \<open>
  One iteration of the main loop (lines 310 to 358). It fails where an extraction reads
  outside its tile.
\<close>

definition DA3D_iteration ::
    "(flt \<Rightarrow> flt) \<Rightarrow> Image \<Rightarrow> Image \<Rightarrow> flt \<Rightarrow> nat \<Rightarrow> flt \<Rightarrow> flt \<Rightarrow> flt \<Rightarrow>
     block_state \<Rightarrow> block_state option" where
  "DA3D_iteration fastexp noisy guide sigma r sigma_s gamma_r gamma_f st =
     (let s = NextPowerOf2 (2 * r + 1);
          sigma2 = fmul sigma sigma;
          gamma_r_sigma2 = fmul gamma_r sigma2;
          sigma_s2 = fmul sigma_s sigma_s;
          gamma_rr_sigma2 = fmul gamma_r_sigma2 (Fin 10);
          sigma_sr2 = fmul sigma_s2 (Fin 2);
          ((pr, pc), agg) = FindMinimum (st_agg_weights st)
      in case FastExtractPatch noisy (int pr) (int pc) (st_y st) of
           None \<Rightarrow> None
         | Some y \<Rightarrow>
        (case FastExtractPatch guide (int pr) (int pc) (st_g st) of
           None \<Rightarrow> None
         | Some g \<Rightarrow>
             (let k_reg = BilateralWeight fastexp g (st_k_reg st) r gamma_rr_sigma2 sigma_sr2;
                  reg_plane = ComputeRegressionPlane y g k_reg r;
                  y = SubtractPlane r reg_plane y;
                  g = SubtractPlane r reg_plane g;
                  k = BilateralWeight fastexp g (st_k st) r gamma_r_sigma2 sigma_s2;
                  (y_m, yt) = ModifyPatch y k (st_y_m st);
                  (g_m, gt) = ModifyPatch g k (st_g_m st);
                  y_m = ToFreq y_m;
                  g_m = ToFreq g_m;
                  y_m = shrinkage fastexp sigma2 gamma_f k g_m y_m;
                  y_m = ToSpace y_m;
                  (output, k, weights) =
                     aggregate s r pr pc reg_plane yt y_m (st_output st, k, st_weights st);
                  agg = IncreaseWeights agg k (int pr - int r) (int pc - int r)
              in Some \<lparr>st_y = y, st_g = g, st_k_reg = k_reg, st_k = k, st_y_m = y_m,
                       st_g_m = g_m, st_agg_weights = agg, st_output = output,
                       st_weights = weights\<rparr>)))"

text \<open>
  The main loop. \<open>None\<close> is a loop that does not return: it runs forever or an
  iteration fails.
\<close>

partial_function (option) DA3D_loop ::
    "(flt \<Rightarrow> flt) \<Rightarrow> Image \<Rightarrow> Image \<Rightarrow> flt \<Rightarrow> nat \<Rightarrow> flt \<Rightarrow> flt \<Rightarrow> flt \<Rightarrow> flt \<Rightarrow>
     block_state \<Rightarrow> block_state option" where
  "DA3D_loop fastexp noisy guide sigma r sigma_s gamma_r gamma_f threshold st =
     (case Minimum (st_agg_weights st) of
        (m, agg) \<Rightarrow>
          if flt_less m threshold
          then Option.bind
                 (DA3D_iteration fastexp noisy guide sigma r sigma_s gamma_r gamma_f
                    (st\<lparr>st_agg_weights := agg\<rparr>))
                 (DA3D_loop fastexp noisy guide sigma r sigma_s gamma_r gamma_f threshold)
          else Some (st\<lparr>st_agg_weights := agg\<rparr>))"

text \<open>
  \<^verbatim>\<open>DA3D_block\<close>. A tile with fewer rows or columns than the patch size has no anchor for
  a patch: the weight map would have no cell, and the result is \<open>None\<close>.
\<close>

definition initial_state :: "Image \<Rightarrow> nat \<Rightarrow> block_state" where
  "initial_state guide s =
     \<lparr>st_y = new_image s s (channels guide), st_g = new_image s s (channels guide),
      st_k_reg = new_image s s 1, st_k = new_image s s 1,
      st_y_m = new_dft_patch s s (channels guide), st_g_m = new_dft_patch s s (channels guide),
      st_agg_weights = new_weight_map (rows guide + 1 - s) (columns guide + 1 - s),
      st_output = new_image (rows guide) (columns guide) (channels guide),
      st_weights = new_image (rows guide) (columns guide) 1\<rparr>"

definition DA3D_block ::
    "(flt \<Rightarrow> flt) \<Rightarrow> Image \<Rightarrow> Image \<Rightarrow> flt \<Rightarrow> nat \<Rightarrow> flt \<Rightarrow> flt \<Rightarrow> flt \<Rightarrow> flt \<Rightarrow>
     (Image \<times> Image) option" where
  "DA3D_block fastexp noisy guide sigma r sigma_s gamma_r gamma_f threshold =
     (let s = NextPowerOf2 (2 * r + 1)
      in if rows guide < s \<or> columns guide < s then None
         else
           case DA3D_loop fastexp noisy guide sigma r sigma_s gamma_r gamma_f threshold
                  (initial_state guide s) of
             None \<Rightarrow> None
           | Some st \<Rightarrow> Some (st_output st, st_weights st))"

section \<open>Auxiliary notions\<close>

text \<open>
  The definitions of this section are not part of the program: they state what its loops
  compute, and the properties below are proved against them.
\<close>

subsection \<open>Pixelwise maps of three-channel data\<close>

text \<open>
  \<open>map_pixel3 F xs q\<close> replaces the three values of pixel \<open>q\<close> by \<open>F\<close> of them;
  \<open>rgb_to_yuv\<close> and \<open>yuv_to_rgb\<close> are the right-hand sides of the three assignments in the
  loop bodies of \<open>ColorTransform\<close> and \<open>ColorTransformInverse\<close>.
\<close>

definition map_pixel3 :: "(flt \<Rightarrow> flt \<Rightarrow> flt \<Rightarrow> flt \<times> flt \<times> flt) \<Rightarrow> flt list \<Rightarrow> nat \<Rightarrow> flt list" where
  "map_pixel3 F xs q =
     (case F (xs ! (3 * q)) (xs ! (3 * q + 1)) (xs ! (3 * q + 2)) of
        (a, b, c) \<Rightarrow> xs[3 * q := a, 3 * q + 1 := b, 3 * q + 2 := c])"




subsection \<open>The matrix of the colour transform\<close>





subsection \<open>Copying runs of consecutive elements\<close>

text \<open>
  \<open>copy_run src d i j n\<close> is \<open>d\<close> after the \<open>n\<close> elements of \<open>src\<close> from index \<open>j\<close> were
  copied to index \<open>i\<close> onwards; \<open>rows_copied\<close> is the patch after its first \<open>R\<close> rows were
  copied from the window of \<open>src\<close> anchored at \<open>(pr, pc)\<close>.
\<close>

definition copy_run :: "Image \<Rightarrow> Image \<Rightarrow> nat \<Rightarrow> nat \<Rightarrow> nat \<Rightarrow> Image" where
  "copy_run src d i j n =
     d\<lparr>data := map (\<lambda>t. if i \<le> t \<and> t < i + n then data src ! (j + (t - i)) else data d ! t)
                 [0..<length (data d)]\<rparr>"

definition rows_copied :: "Image \<Rightarrow> nat \<Rightarrow> nat \<Rightarrow> Image \<Rightarrow> nat \<Rightarrow> Image" where
  "rows_copied src pr pc dst R =
     fold (\<lambda>row d. copy_run src d (row * columns dst * channels dst)
                      (((pr + row) * columns src + pc) * channels src)
                      (columns dst * channels dst)) [0..<R] dst"

subsection \<open>The sums of the regression\<close>

text \<open>
  The weighted sums of the specification's normal equations, over the real values of
  finite patches: \<open>A = \<Sum> (row - r)\<^sup>2 k\<close>, \<open>B = \<Sum> (row - r) (col - r) k\<close>,
  \<open>C = \<Sum> (col - r)\<^sup>2 k\<close>, \<open>D = \<Sum> (row - r) (y - g(r, r)) k\<close> and
  \<open>E = \<Sum> (col - r) (y - g(r, r)) k\<close>, each over the rows and columns of the patch.
\<close>

definition real_of_flt :: "flt \<Rightarrow> real" where
  "real_of_flt a = (case a of Fin x \<Rightarrow> x | _ \<Rightarrow> 0)"

definition rval :: "Image \<Rightarrow> nat \<Rightarrow> nat \<Rightarrow> nat \<Rightarrow> real" where
  "rval img col row ch = real_of_flt (val img col row ch)"






subsection \<open>Shrinkage\<close>

text \<open>
  \<open>mask_energy k\<close> is the sum of the squares of the mask as the source accumulates it,
  \<open>shrink_factor\<close> the factor \<open>K\<close> of a frequency bin, and \<open>shrunk\<close> the new value of the
  element with linear index \<open>i\<close> of a spectrum of \<open>W\<close> columns and \<open>C\<close> channels.
\<close>

definition mask_energy :: "Image \<Rightarrow> flt" where
  "mask_energy k =
     fold (\<lambda>row. fold (\<lambda>col s. fadd s (fmul (val k col row 0) (val k col row 0))) [0..<columns k])
       [0..<rows k] (Fin 0)"

definition shrink_factor ::
    "(flt \<Rightarrow> flt) \<Rightarrow> flt \<Rightarrow> flt \<Rightarrow> DftPatch \<Rightarrow> nat \<Rightarrow> nat \<Rightarrow> nat \<Rightarrow> flt" where
  "shrink_factor fastexp gamma_f sigma_f2 g_m col row chan =
     fastexp (fdiv (fmul (fneg gamma_f) sigma_f2)
       (fadd (fmul (val (freq_re g_m) col row chan) (val (freq_re g_m) col row chan))
             (fmul (val (freq_im g_m) col row chan) (val (freq_im g_m) col row chan))))"

definition shrunk ::
    "(flt \<Rightarrow> flt) \<Rightarrow> flt \<Rightarrow> flt \<Rightarrow> DftPatch \<Rightarrow> nat \<Rightarrow> nat \<Rightarrow> nat \<Rightarrow> flt \<Rightarrow> flt" where
  "shrunk fastexp gamma_f sigma_f2 g_m W C i v =
     (if i div (W * C) \<noteq> 0 \<or> i mod (W * C) div C \<noteq> 0
      then fmul v (shrink_factor fastexp gamma_f sigma_f2 g_m
                     (i mod (W * C) div C) (i div (W * C)) (i mod C))
      else v)"

subsection \<open>Example patches\<close>




definition example_freq :: DftPatch where
  "example_freq =
     \<lparr>space_re = new_image 2 2 1, space_im = new_image 2 2 1,
      freq_re = \<lparr>rows = 2, columns = 2, channels = 1, data = [Fin 1, Fin 2, Fin 3, Fin 4]\<rparr>,
      freq_im = \<lparr>rows = 2, columns = 2, channels = 1, data = [Fin 0, Fin 1, Fin 0, Fin 1]\<rparr>\<rparr>"

definition example_mask :: Image where
  "example_mask = \<lparr>rows = 2, columns = 2, channels = 1, data = [Fin 1, Fin 1, Fin 1, Fin 1]\<rparr>"

section \<open>Properties\<close>

subsection \<open>Rounding\<close>

lemma pow2_powr: "pow2 e = 2 powr (of_int e)"
proof (cases "0 \<le> e")
  case True
  then have "2 powr (of_int e) = (2::real) powr (real (nat e))" by simp
  also have "\<dots> = 2 ^ nat e" by (subst powr_realpow) simp_all
  finally show ?thesis using True by (simp add: pow2_def)
next
  case False
  then have "2 powr (of_int e) = (2::real) powr (- real (nat (- e)))" by simp
  also have "\<dots> = 1 / 2 powr (real (nat (- e)))" by (simp add: powr_minus_divide)
  also have "2 powr (real (nat (- e))) = (2::real) ^ nat (- e)" by (subst powr_realpow) simp_all
  finally show ?thesis using False by (simp add: pow2_def)
qed

lemma pow2_pos [simp]: "0 < pow2 e"
  by (simp add: pow2_powr)

lemma pow2_nonneg [simp]: "0 \<le> pow2 e"
  by (rule less_imp_le [OF pow2_pos])

lemma pow2_neq0 [simp]: "pow2 e \<noteq> 0"
  using pow2_pos [of e] by linarith

lemma pow2_add: "pow2 (a + b) = pow2 a * pow2 b"
  by (simp add: pow2_powr powr_add)

lemma pow2_Suc: "pow2 (e + 1) = 2 * pow2 e"
  by (simp add: pow2_powr powr_add)

lemma pow2_pred: "pow2 (e - 1) = pow2 e / 2"
  by (simp add: pow2_powr powr_diff)

lemma pow2_mono: "a \<le> b \<Longrightarrow> pow2 a \<le> pow2 b"
  by (simp add: pow2_powr)

lemma pow2_less_iff: "pow2 a < pow2 b \<longleftrightarrow> a < b"
  by (simp add: pow2_powr)

lemma pow2_0 [simp]: "pow2 0 = 1"
  by (simp add: pow2_def)

lemma expo_up_spec: "1 \<le> x \<Longrightarrow> pow2 (expo_up x) \<le> x \<and> x < pow2 (expo_up x + 1)"
proof (induction x rule: expo_up.induct)
  case (1 x)
  show ?case
  proof (cases "2 \<le> x")
    case True
    then have ih: "pow2 (expo_up (x / 2)) \<le> x / 2 \<and> x / 2 < pow2 (expo_up (x / 2) + 1)"
      using 1 by simp
    have e: "expo_up x = expo_up (x / 2) + 1" using True by (subst expo_up.simps) simp
    have "pow2 (expo_up (x / 2) + 1) = 2 * pow2 (expo_up (x / 2))"
      "pow2 (expo_up (x / 2) + 1 + 1) = 2 * pow2 (expo_up (x / 2) + 1)"
      by (rule pow2_Suc)+
    then show ?thesis using ih unfolding e by linarith
  next
    case False
    then have e: "expo_up x = 0" by (subst expo_up.simps) simp
    have "pow2 (0 + 1) = 2" by (simp add: pow2_def)
    then show ?thesis using False 1(2) by (simp add: e)
  qed
qed

lemma expo_down_spec: "0 < x \<Longrightarrow> x < 1 \<Longrightarrow> pow2 (expo_down x) \<le> x \<and> x < pow2 (expo_down x + 1)"
proof (induction x rule: expo_down.induct)
  case (1 x)
  have e: "expo_down x = expo_down (2 * x) - 1" using 1(2,3) by (subst expo_down.simps) simp
  show ?case
  proof (cases "2 * x < 1")
    case True
    then have ih: "pow2 (expo_down (2 * x)) \<le> 2 * x \<and> 2 * x < pow2 (expo_down (2 * x) + 1)"
      using 1 by simp
    show ?thesis using ih unfolding e by (simp add: pow2_pred pow2_Suc)
  next
    case False
    then have "expo_down (2 * x) = 0" by (subst expo_down.simps) simp
    then have "expo_down x = - 1" unfolding e by simp
    moreover have "pow2 (- 1) = 1 / 2" "pow2 (- 1 + 1) = 1" by (simp_all add: pow2_def)
    ultimately show ?thesis using False 1(3) by simp
  qed
qed

lemma expo_spec:
  assumes "x \<noteq> 0"
  shows "pow2 (expo x) \<le> \<bar>x\<bar>" "\<bar>x\<bar> < pow2 (expo x + 1)"
proof -
  have "pow2 (expo x) \<le> \<bar>x\<bar> \<and> \<bar>x\<bar> < pow2 (expo x + 1)"
  proof (cases "1 \<le> \<bar>x\<bar>")
    case True
    then show ?thesis using expo_up_spec [of "\<bar>x\<bar>"] by (simp add: expo_def)
  next
    case False
    then show ?thesis using expo_down_spec [of "\<bar>x\<bar>"] assms by (simp add: expo_def)
  qed
  then show "pow2 (expo x) \<le> \<bar>x\<bar>" "\<bar>x\<bar> < pow2 (expo x + 1)" by simp_all
qed

lemma expo_unique:
  assumes "pow2 e \<le> \<bar>x\<bar>" "\<bar>x\<bar> < pow2 (e + 1)"
  shows "expo x = e"
proof -
  have x: "x \<noteq> 0"
  proof
    assume "x = 0"
    then have "pow2 e \<le> 0" using assms(1) by simp
    then show False using pow2_pos [of e] by linarith
  qed
  note s = expo_spec [OF x]
  have "pow2 e < pow2 (expo x + 1)" using assms(1) s(2) by linarith
  then have a: "e < expo x + 1" by (simp add: pow2_less_iff)
  have "pow2 (expo x) < pow2 (e + 1)" using assms(2) s(1) by linarith
  then have b: "expo x < e + 1" by (simp add: pow2_less_iff)
  from a b show ?thesis by simp
qed

lemma rne_error: "\<bar>of_int (rne y) - y\<bar> \<le> 1 / 2"
  unfolding rne_def Let_def by (auto; linarith)

lemma rne_near: "\<bar>y - of_int n\<bar> < 1 / 2 \<Longrightarrow> rne y = n"
  using rne_error [of y] by linarith

lemma rne_of_int [simp]: "rne (of_int n) = n"
  by (rule rne_near) simp

lemma rne_0 [simp]: "rne 0 = 0"
  using rne_of_int [of 0] by simp

lemma rne_nonneg: "0 \<le> y \<Longrightarrow> 0 \<le> rne y"
  using rne_error [of y] by linarith

lemma rne_nonpos: "y \<le> 0 \<Longrightarrow> rne y \<le> 0"
  using rne_error [of y] by linarith


lemma ulp_pos [simp]: "0 < ulp p emin x"
  by (simp add: ulp_def)

lemma ulp_nonneg [simp]: "0 \<le> ulp p emin x"
  by (simp add: ulp_def)

lemma ulp_neq0 [simp]: "ulp p emin x \<noteq> 0"
  by (simp add: ulp_def)

lemma ulp_bound: "x \<noteq> 0 \<Longrightarrow> ulp p emin x \<le> \<bar>x\<bar> * pow2 (1 - int p) + pow2 (emin - int p + 1)"
proof -
  assume x: "x \<noteq> 0"
  show ?thesis
  proof (cases "emin \<le> expo x")
    case True
    have eq: "expo x - int p + 1 = expo x + (1 - int p)" by simp
    have "ulp p emin x = pow2 (expo x - int p + 1)" using True by (simp add: ulp_def max_def)
    also have "\<dots> = pow2 (expo x + (1 - int p))" by (simp only: eq)
    also have "\<dots> = pow2 (expo x) * pow2 (1 - int p)" by (rule pow2_add)
    also have "\<dots> \<le> \<bar>x\<bar> * pow2 (1 - int p)"
      using expo_spec(1) [OF x] by (intro mult_right_mono) simp_all
    finally show ?thesis using pow2_pos [of "emin - int p + 1"] by linarith
  next
    case False
    then have "ulp p emin x = pow2 (emin - int p + 1)" by (simp add: ulp_def max_def)
    moreover have "0 \<le> \<bar>x\<bar> * pow2 (1 - int p)" by simp
    ultimately show ?thesis by linarith
  qed
qed

lemma rnd_value_error: "\<bar>of_int (rne (x / ulp p emin x)) * ulp p emin x - x\<bar> \<le> ulp p emin x / 2"
proof -
  let ?q = "ulp p emin x"
  have "\<bar>of_int (rne (x / ?q)) * ?q - x\<bar> = \<bar>of_int (rne (x / ?q)) - x / ?q\<bar> * ?q"
  proof -
    have "?q \<noteq> 0" using ulp_pos [of p emin x] by linarith
    then have "of_int (rne (x / ?q)) * ?q - x = (of_int (rne (x / ?q)) - x / ?q) * ?q"
      by (simp add: field_simps)
    moreover have "\<bar>?q\<bar> = ?q" using ulp_pos [of p emin x] by simp
    ultimately show ?thesis by (simp only: abs_mult)
  qed
  also have "\<dots> \<le> (1 / 2) * ?q"
    by (intro mult_right_mono rne_error) simp
  finally show ?thesis by simp
qed

lemma rnd_finite:
  assumes "\<bar>x\<bar> * (1 + pow2 (- int p)) + pow2 (emin - int p) < pow2 (emax + 1)"
  shows "\<exists>y. rnd p emin emax x = Fin y \<and> \<bar>y - x\<bar> \<le> \<bar>x\<bar> * pow2 (- int p) + pow2 (emin - int p) \<and>
             (0 \<le> x \<longrightarrow> 0 \<le> y) \<and> (x \<le> 0 \<longrightarrow> y \<le> 0)"
proof -
  let ?q = "ulp p emin x"
  define y where "y = of_int (rne (x / ?q)) * ?q"
  have err: "\<bar>y - x\<bar> \<le> \<bar>x\<bar> * pow2 (- int p) + pow2 (emin - int p)"
  proof (cases "x = 0")
    case True
    then have "y = 0" by (simp add: y_def)
    then show ?thesis using True pow2_pos [of "emin - int p"] by simp
  next
    case False
    have h1: "pow2 (1 - int p) = 2 * pow2 (- int p)"
      using pow2_Suc [of "- int p"] by (simp add: add.commute)
    have h2: "pow2 (emin - int p + 1) = 2 * pow2 (emin - int p)" by (rule pow2_Suc)
    have "\<bar>y - x\<bar> \<le> ?q / 2" unfolding y_def by (rule rnd_value_error)
    also have "\<dots> \<le> (\<bar>x\<bar> * pow2 (1 - int p) + pow2 (emin - int p + 1)) / 2"
      using ulp_bound [OF False, of p emin] by simp
    also have "\<dots> = \<bar>x\<bar> * pow2 (- int p) + pow2 (emin - int p)" by (simp add: h1 h2)
    finally show ?thesis .
  qed
  have "\<bar>y\<bar> \<le> \<bar>x\<bar> + \<bar>y - x\<bar>" by simp
  also have "\<dots> \<le> \<bar>x\<bar> * (1 + pow2 (- int p)) + pow2 (emin - int p)"
    using err by (simp add: algebra_simps)
  also have "\<dots> < pow2 (emax + 1)" by (rule assms)
  finally have fin: "rnd p emin emax x = Fin y" by (simp add: rnd_def Let_def y_def)
  have s1: "0 \<le> x \<longrightarrow> 0 \<le> y"
    unfolding y_def by (auto intro!: mult_nonneg_nonneg rne_nonneg)
  have s2: "x \<le> 0 \<longrightarrow> y \<le> 0"
    unfolding y_def by (auto intro!: mult_nonpos_nonneg rne_nonpos divide_nonpos_nonneg)
  show ?thesis using fin err s1 s2 by blast
qed

lemma round32_error:
  assumes "\<bar>x\<bar> \<le> 2 ^ 127"
  shows "\<exists>y. round32 x = Fin y \<and> \<bar>y - x\<bar> \<le> \<bar>x\<bar> / 2 ^ 24 + 1 / 2 ^ 150 \<and>
             (0 \<le> x \<longrightarrow> 0 \<le> y) \<and> (x \<le> 0 \<longrightarrow> y \<le> 0)"
proof -
  have a: "pow2 (- int 24) = 1 / 2 ^ 24" "pow2 (- 126 - int 24) = 1 / 2 ^ 150" "pow2 (127 + 1) = 2 ^ 128"
    by (simp_all add: pow2_def)
  have "\<bar>x\<bar> * (1 + 1 / 2 ^ 24) + 1 / 2 ^ 150 \<le> 2 ^ 127 * (1 + 1 / 2 ^ 24) + 1 / 2 ^ 150"
    using assms by (simp add: mult_right_mono)
  also have "\<dots> < (2::real) ^ 128" by simp
  finally have "\<bar>x\<bar> * (1 + pow2 (- int 24)) + pow2 (- 126 - int 24) < pow2 (127 + 1)"
    by (simp only: a)
  from rnd_finite [OF this] show ?thesis by (simp only: a round32_def) simp
qed

lemma round64_error:
  assumes "\<bar>x\<bar> \<le> 2 ^ 1023"
  shows "\<exists>y. round64 x = Fin y \<and> \<bar>y - x\<bar> \<le> \<bar>x\<bar> / 2 ^ 53 + 1 / 2 ^ 1075 \<and>
             (0 \<le> x \<longrightarrow> 0 \<le> y) \<and> (x \<le> 0 \<longrightarrow> y \<le> 0)"
proof -
  have a: "pow2 (- int 53) = 1 / 2 ^ 53" "pow2 (- 1022 - int 53) = 1 / 2 ^ 1075" "pow2 (1023 + 1) = 2 ^ 1024"
    by (simp_all add: pow2_def)
  have "\<bar>x\<bar> * (1 + 1 / 2 ^ 53) + 1 / 2 ^ 1075 \<le> 2 ^ 1023 * (1 + 1 / 2 ^ 53) + 1 / 2 ^ 1075"
    using assms by (simp add: mult_right_mono)
  also have "\<dots> < (2::real) ^ 1024" by simp
  finally have "\<bar>x\<bar> * (1 + pow2 (- int 53)) + pow2 (- 1022 - int 53) < pow2 (1023 + 1)"
    by (simp only: a)
  from rnd_finite [OF this] show ?thesis by (simp only: a round64_def) simp
qed

lemma rnd_sqrt_eval:
  fixes n :: int
  assumes x: "0 \<le> x" and e: "(pow2 e)\<^sup>2 \<le> x" "x < (pow2 (e + 1))\<^sup>2" and emin: "emin \<le> e"
    and n: "0 < n" "(2 * of_int n - 1)\<^sup>2 * (pow2 (e - int p))\<^sup>2 < x"
      "x < (2 * of_int n + 1)\<^sup>2 * (pow2 (e - int p))\<^sup>2"
    and emax: "of_int n * pow2 (e - int p + 1) < pow2 (emax + 1)"
  shows "rnd p emin emax (sqrt x) = Fin (of_int n * pow2 (e - int p + 1))"
proof -
  let ?h = "pow2 (e - int p)"
  have q2: "pow2 (e - int p + 1) = 2 * ?h" by (rule pow2_Suc)
  have lo: "pow2 e \<le> sqrt x" by (rule real_le_rsqrt [OF e(1)])
  have hi: "sqrt x < pow2 (e + 1)"
    by (rule real_less_lsqrt [OF less_imp_le [OF pow2_pos] e(2)])
  have sx: "\<bar>sqrt x\<bar> = sqrt x" using x by simp
  have ex: "expo (sqrt x) = e" by (rule expo_unique) (simp_all only: sx lo hi)
  have u: "ulp p emin (sqrt x) = 2 * ?h" using emin by (simp add: ulp_def ex max_def q2)
  have a: "(2 * of_int n - 1) * ?h < sqrt x"
  proof (rule real_less_rsqrt)
    show "((2 * of_int n - 1) * ?h)\<^sup>2 < x" using n(2) by (simp add: power_mult_distrib)
  qed
  have b: "sqrt x < (2 * of_int n + 1) * ?h"
  proof (rule real_less_lsqrt)
    show "0 \<le> (2 * of_int n + 1) * ?h" using n(1) by simp
    show "x < ((2 * of_int n + 1) * ?h)\<^sup>2" using n(3) by (simp add: power_mult_distrib)
  qed
  have "\<bar>sqrt x / (2 * ?h) - of_int n\<bar> < 1 / 2"
  proof -
    have "sqrt x / (2 * ?h) - of_int n = (sqrt x - 2 * of_int n * ?h) / (2 * ?h)"
      by (simp add: field_simps)
    moreover have "\<bar>sqrt x - 2 * of_int n * ?h\<bar> < ?h" using a b by (simp add: algebra_simps abs_less_iff)
    ultimately show ?thesis by (simp add: abs_mult field_simps abs_less_iff)
  qed
  then have r: "rne (sqrt x / (2 * ?h)) = n" by (rule rne_near)
  have "\<not> pow2 (emax + 1) \<le> \<bar>of_int n * (2 * ?h)\<bar>"
    using emax n(1) unfolding q2 by (simp add: abs_mult)
  then show ?thesis by (simp add: rnd_def Let_def u r q2)
qed

lemmas flt_eval = round32_def round64_def rnd_def ulp_def expo_def expo_up.simps expo_down.simps
  pow2_def rne_def Let_def add32_def sub32_def mul32_def div32_def add64_def sub64_def mul64_def
  div64_def of_int32_def flt_of_int_def fsub_def inf_of_sign_def

text \<open>
  A positive number that is not tiny is rounded to binary32 with a relative error of at
  most \<open>2\<^sup>-\<^sup>2\<^sup>3\<close>.
\<close>

lemma round32_relative:
  assumes "1 / 2 ^ 100 \<le> x" "x \<le> 2 ^ 127"
  shows "\<exists>y. round32 x = Fin y \<and> x * (1 - 1 / 2 ^ 23) \<le> y \<and> y \<le> x * (1 + 1 / 2 ^ 23)"
proof -
  have ax: "\<bar>x\<bar> = x" using assms(1) by simp
  from round32_error [of x] assms(2) ax obtain y where
    y: "round32 x = Fin y" "\<bar>y - x\<bar> \<le> x / 2 ^ 24 + 1 / 2 ^ 150" by auto
  have "(1::real) / 2 ^ 150 \<le> (1 / 2 ^ 100) / 2 ^ 24" by simp
  also have "\<dots> \<le> x / 2 ^ 24" using assms(1) by (simp add: divide_right_mono)
  finally have "\<bar>y - x\<bar> \<le> x / 2 ^ 24 + x / 2 ^ 24" using y(2) by linarith
  then have "\<bar>y - x\<bar> \<le> x * (1 / 2 ^ 23)" by simp
  then have "x * (1 - 1 / 2 ^ 23) \<le> y \<and> y \<le> x * (1 + 1 / 2 ^ 23)"
    unfolding abs_le_iff by (simp add: algebra_simps)
  with y(1) show ?thesis by blast
qed

subsection \<open>Symmetric coordinates\<close>


lemma wrap32_id: "in32 x \<Longrightarrow> wrap32 x = x"
  by (simp add: wrap32_def in32_def)

lemma wrap32_neg_pred: "in32 p \<Longrightarrow> p < 0 \<Longrightarrow> wrap32 (wrap32 (- p) - 1) = - p - 1"
proof (cases "p = - 2147483648")
  case True
  then show ?thesis by (simp add: wrap32_def)
next
  case False
  assume "in32 p" "p < 0"
  with False have "in32 (- p)" "in32 (- p - 1)" by (simp_all add: in32_def)
  then show ?thesis by (simp add: wrap32_id)
qed

lemma smod_nonneg: "0 \<le> a \<Longrightarrow> 0 < b \<Longrightarrow> (a::int) smod b = a mod b"
  by (simp add: signed_modulo_int_def sgn_if)

lemma neg_pred_mod:
  assumes "0 < (n::int)"
  shows "(- p - 1) mod n = n - 1 - p mod n"
proof -
  have "(- p - 1) mod n = (n - 1 - p mod n) mod n"
    by (metis (no_types, opaque_lifting) diff_diff_eq2 diff_minus_eq_add minus_diff_eq mod_diff_right_eq mod_mult_self1 mult.commute mult_1 uminus_add_conv_diff add.commute)
  also have "\<dots> = n - 1 - p mod n"
  proof -
    have "0 \<le> p mod n" "p mod n < n" using assms by simp_all
    then show ?thesis by (intro mod_pos_pos_trivial) linarith+
  qed
  finally show ?thesis .
qed

lemma SymmetricCoordinate_closed_form:
  assumes "in32 p" "0 < sz" "sz < 1073741824"
  shows "SymmetricCoordinate p sz =
           Some (if p mod (2 * sz) < sz then p mod (2 * sz) else 2 * sz - 1 - p mod (2 * sz))"
proof -
  define q where "q = (if p < 0 then - p - 1 else p)"
  define m where "m = q mod (2 * sz)"
  have q0: "0 \<le> q" using assms by (auto simp: q_def)
  have ts: "wrap32 (2 * sz) = 2 * sz" using assms by (intro wrap32_id) (simp add: in32_def)
  have p1: "(if p < 0 then wrap32 (wrap32 (- p) - 1) else p) = q"
    using assms by (simp add: q_def wrap32_neg_pred)
  have m_rng: "0 \<le> m" "m < 2 * sz" using assms by (simp_all add: m_def)
  have p2: "(if q \<ge> 2 * sz then q smod (2 * sz) else q) = m"
    using q0 assms by (auto simp: m_def smod_nonneg)
  have w3: "wrap32 (wrap32 (2 * sz - 1) - m) = 2 * sz - 1 - m"
  proof -
    have "in32 (2 * sz - 1)" "in32 (2 * sz - 1 - m)" using assms m_rng by (simp_all add: in32_def)
    then show ?thesis by (simp add: wrap32_id)
  qed
  have sc: "SymmetricCoordinate p sz = Some (if m \<ge> sz then 2 * sz - 1 - m else m)"
    unfolding SymmetricCoordinate_def Let_def p1 ts p2 using assms w3 by simp
  have mm: "(if m \<ge> sz then 2 * sz - 1 - m else m) =
      (if p mod (2 * sz) < sz then p mod (2 * sz) else 2 * sz - 1 - p mod (2 * sz))"
  proof (cases "p < 0")
    case False
    then show ?thesis by (auto simp: m_def q_def)
  next
    case True
    have "(- p - 1) mod (2 * sz) = 2 * sz - 1 - p mod (2 * sz)"
      using assms by (intro neg_pred_mod) simp
    with True show ?thesis using assms by (auto simp: m_def q_def)
  qed
  show ?thesis using sc mm by simp
qed

text \<open>
  Claim C5, as amended. For a positive size whose double fits 32 bits and every 32-bit
  position, \<open>SymmetricCoordinate\<close> returns a value in \<open>[0, sz)\<close>: the position taken
  modulo \<open>2 * sz\<close> and mirrored when it falls into the upper half. It maps \<open>-1\<close> to \<open>0\<close>,
  \<open>-2\<close> to \<open>1\<close>, \<open>sz\<close> to \<open>sz - 1\<close> and \<open>sz + 1\<close> to \<open>sz - 2\<close>, and has period \<open>2 * sz\<close>.
  It is idempotent, not an involution: folding a folded position changes nothing. The
  mirror map \<open>p \<mapsto> 2 * sz - 1 - p\<close> of the doubled range, which is an involution, leaves
  the result unchanged.
\<close>

theorem SymmetricCoordinate_folds:
  assumes "in32 p" "0 < sz" "sz < 1073741824"
  shows "\<exists>v. SymmetricCoordinate p sz = Some v \<and> 0 \<le> v \<and> v < sz \<and>
             v = (if p mod (2 * sz) < sz then p mod (2 * sz) else 2 * sz - 1 - p mod (2 * sz)) \<and>
             SymmetricCoordinate v sz = Some v \<and>
             (in32 (p + 2 * sz) \<longrightarrow> SymmetricCoordinate (p + 2 * sz) sz = Some v) \<and>
             (0 \<le> p \<and> p < 2 * sz \<longrightarrow> SymmetricCoordinate (2 * sz - 1 - p) sz = Some v) \<and>
             SymmetricCoordinate (- 1) sz = Some 0 \<and>
             SymmetricCoordinate sz sz = Some (sz - 1) \<and>
             (2 \<le> sz \<longrightarrow> SymmetricCoordinate (- 2) sz = Some 1 \<and>
                            SymmetricCoordinate (sz + 1) sz = Some (sz - 2))"
proof -
  define v where "v = (if p mod (2 * sz) < sz then p mod (2 * sz) else 2 * sz - 1 - p mod (2 * sz))"
  have m_rng: "0 \<le> p mod (2 * sz)" "p mod (2 * sz) < 2 * sz" using assms by simp_all
  have v_rng: "0 \<le> v" "v < sz" using m_rng by (auto simp: v_def)
  have 1: "SymmetricCoordinate p sz = Some v"
    using SymmetricCoordinate_closed_form [OF assms] by (simp add: v_def)
  have small: "\<And>x. 0 \<le> x \<Longrightarrow> x < 2 * sz \<Longrightarrow>
      SymmetricCoordinate x sz = Some (if x < sz then x else 2 * sz - 1 - x)"
  proof -
    fix x :: int assume x: "0 \<le> x" "x < 2 * sz"
    then have "in32 x" using assms by (simp add: in32_def)
    moreover have "x mod (2 * sz) = x" using x by simp
    ultimately show "SymmetricCoordinate x sz = Some (if x < sz then x else 2 * sz - 1 - x)"
      using SymmetricCoordinate_closed_form [of x sz] assms by simp
  qed
  have 2: "SymmetricCoordinate v sz = Some v" using small [of v] v_rng by simp
  have 3: "in32 (p + 2 * sz) \<longrightarrow> SymmetricCoordinate (p + 2 * sz) sz = Some v"
  proof
    assume "in32 (p + 2 * sz)"
    then show "SymmetricCoordinate (p + 2 * sz) sz = Some v"
      using SymmetricCoordinate_closed_form [of "p + 2 * sz" sz] assms by (simp add: v_def)
  qed
  have 4: "0 \<le> p \<and> p < 2 * sz \<longrightarrow> SymmetricCoordinate (2 * sz - 1 - p) sz = Some v"
  proof
    assume p: "0 \<le> p \<and> p < 2 * sz"
    then have "p mod (2 * sz) = p" by simp
    then have "v = (if p < sz then p else 2 * sz - 1 - p)" by (simp add: v_def)
    moreover have "SymmetricCoordinate (2 * sz - 1 - p) sz =
        Some (if 2 * sz - 1 - p < sz then 2 * sz - 1 - p else 2 * sz - 1 - (2 * sz - 1 - p))"
      using p by (intro small) simp_all
    ultimately show "SymmetricCoordinate (2 * sz - 1 - p) sz = Some v" by auto
  qed
  have m1: "(- 1) mod (2 * sz) = 2 * sz - 1"
    using neg_pred_mod [of "2 * sz" 0] assms by simp
  have 5: "SymmetricCoordinate (- 1) sz = Some 0"
    using SymmetricCoordinate_closed_form [of "- 1" sz] assms m1 by (simp add: in32_def)
  have 6: "SymmetricCoordinate sz sz = Some (sz - 1)"
    using small [of sz] assms by simp
  have 7: "2 \<le> sz \<longrightarrow> SymmetricCoordinate (- 2) sz = Some 1 \<and>
                            SymmetricCoordinate (sz + 1) sz = Some (sz - 2)"
  proof
    assume s2: "2 \<le> sz"
    have m2: "(- 2) mod (2 * sz) = 2 * sz - 2"
      using neg_pred_mod [of "2 * sz" 1] s2 by simp
    have a: "SymmetricCoordinate (- 2) sz = Some 1"
      using SymmetricCoordinate_closed_form [of "- 2" sz] assms m2 s2 by (simp add: in32_def)
    have b: "SymmetricCoordinate (sz + 1) sz = Some (sz - 2)"
      using small [of "sz + 1"] s2 by simp
    from a b show "SymmetricCoordinate (- 2) sz = Some 1 \<and>
                            SymmetricCoordinate (sz + 1) sz = Some (sz - 2)" ..
  qed
  show ?thesis using 1 2 3 4 5 6 7 v_rng v_def by blast
qed

text \<open>The theorem at position \<open>-8\<close> and size \<open>3\<close>.\<close>

theorem SymmetricCoordinate_folds_witness:
  "in32 (- 8) \<and> (0::int) < 3 \<and> (3::int) < 1073741824 \<and> in32 (- 8 + 2 * 3) \<and>
   SymmetricCoordinate (- 8) 3 = Some 1 \<and> SymmetricCoordinate 1 3 = Some 1 \<and>
   SymmetricCoordinate (- 8 + 2 * 3) 3 = Some 1 \<and>
   SymmetricCoordinate (- 1) 3 = Some 0 \<and> SymmetricCoordinate 3 3 = Some (3 - 1) \<and>
   SymmetricCoordinate (- 2) 3 = Some 1 \<and> SymmetricCoordinate (3 + 1) 3 = Some (3 - 2)"
  using SymmetricCoordinate_folds [of "- 8" 3] by (simp add: in32_def)

text \<open>
  Claim C5 as stated fails: for size \<open>1\<close>, position \<open>1\<close> of the doubled range folds to
  \<open>0\<close>, and folding \<open>0\<close> again does not give \<open>1\<close> back.
\<close>

theorem SymmetricCoordinate_involution_counterexample:
  "SymmetricCoordinate 1 1 = Some 0 \<and> SymmetricCoordinate 0 1 \<noteq> Some 1"
  by (simp add: SymmetricCoordinate_def wrap32_def signed_modulo_int_def)

subsection \<open>Colour transform\<close>

text \<open>
  Claim C9. \<open>ColorTransform\<close> and \<open>ColorTransformInverse\<close> return the image unchanged
  whenever its channel count is not 3, whatever that count is.
\<close>

theorem ColorTransform_other_channel_counts:
  "channels img \<noteq> 3 \<Longrightarrow> ColorTransform img = img \<and> ColorTransformInverse img = img"
  by (simp add: ColorTransform_def ColorTransformInverse_def)

text \<open>The theorem at an image of four channels.\<close>

theorem ColorTransform_other_channel_counts_witness:
  "channels \<lparr>rows = 1, columns = 2, channels = 4,
             data = [Fin 1, Fin 2, Fin 3, Fin 4, Fin 5, Fin 6, Fin 7, Fin 8]\<rparr> \<noteq> 3 \<and>
   ColorTransform \<lparr>rows = 1, columns = 2, channels = 4,
             data = [Fin 1, Fin 2, Fin 3, Fin 4, Fin 5, Fin 6, Fin 7, Fin 8]\<rparr> =
     \<lparr>rows = 1, columns = 2, channels = 4,
             data = [Fin 1, Fin 2, Fin 3, Fin 4, Fin 5, Fin 6, Fin 7, Fin 8]\<rparr> \<and>
   ColorTransformInverse \<lparr>rows = 1, columns = 2, channels = 4,
             data = [Fin 1, Fin 2, Fin 3, Fin 4, Fin 5, Fin 6, Fin 7, Fin 8]\<rparr> =
     \<lparr>rows = 1, columns = 2, channels = 4,
             data = [Fin 1, Fin 2, Fin 3, Fin 4, Fin 5, Fin 6, Fin 7, Fin 8]\<rparr>"
  using ColorTransform_other_channel_counts
     [of "\<lparr>rows = 1, columns = 2, channels = 4,
             data = [Fin 1, Fin 2, Fin 3, Fin 4, Fin 5, Fin 6, Fin 7, Fin 8]\<rparr>"]
  by simp

lemma fold_nested_flatten:
  "fold (\<lambda>row. fold (\<lambda>col. f row col) [0..<W]) [0..<H] s =
   fold (\<lambda>q. f (q div W) (q mod W)) [0..<H * W] s"
proof (induction H arbitrary: s)
  case 0
  then show ?case by simp
next
  case (Suc H)
  have "[0..<H * W + W] = [0..<H * W] @ [H * W..<H * W + W]"
    by (rule upt_add_eq_append) simp
  then have split: "[0..<Suc H * W] = [0..<H * W] @ map (\<lambda>c. c + H * W) [0..<W]"
    by (simp add: map_add_upt add.commute)
  have last_row: "fold (\<lambda>q. f (q div W) (q mod W)) (map (\<lambda>c. c + H * W) [0..<W]) t =
      fold (f H) [0..<W] t" for t
    unfolding fold_map by (rule fold_cong) (auto simp: comp_def)
  show ?case
    unfolding split by (simp add: Suc.IH last_row)
qed

lemma length_map_pixel3 [simp]: "length (map_pixel3 F xs q) = length xs"
  by (simp add: map_pixel3_def split: prod.splits)















lemma is_fin_iff: "is_fin a \<longleftrightarrow> (\<exists>x. a = Fin x)"
  by (cases a) simp_all








subsection \<open>Patch extraction\<close>

lemma for_loop_snoc:
  "for_loop (xs @ [x]) body s =
     (case for_loop xs body s of None \<Rightarrow> None | Some s' \<Rightarrow> body x s')"
  by (induction xs arbitrary: s) (auto split: option.splits)

lemma copy_run_0 [simp]: "copy_run src d i j 0 = d"
proof -
  have "(\<lambda>t. if i \<le> t \<and> t < i + 0 then data src ! (j + (t - i)) else data d ! t) = (!) (data d)"
    by (rule ext) auto
  then show ?thesis by (simp add: copy_run_def map_nth)
qed

lemma length_copy_run [simp]: "length (data (copy_run src d i j n)) = length (data d)"
  by (simp add: copy_run_def)

lemma copy_run_fields [simp]:
  "rows (copy_run src d i j n) = rows d" "columns (copy_run src d i j n) = columns d"
  "channels (copy_run src d i j n) = channels d"
  by (simp_all add: copy_run_def)

lemma copy_run_step:
  assumes "i + n < length (data d)"
  shows "(copy_run src d i j n)\<lparr>data := (data (copy_run src d i j n))[i + n := data src ! (j + n)]\<rparr>
         = copy_run src d i j (Suc n)"
proof -
  have "(data (copy_run src d i j n))[i + n := data src ! (j + n)] = data (copy_run src d i j (Suc n))"
  proof (rule nth_equalityI)
    show "length ((data (copy_run src d i j n))[i + n := data src ! (j + n)]) =
          length (data (copy_run src d i j (Suc n)))" by simp
  next
    fix t assume "t < length ((data (copy_run src d i j n))[i + n := data src ! (j + n)])"
    then have t: "t < length (data d)" by simp
    show "(data (copy_run src d i j n))[i + n := data src ! (j + n)] ! t =
          data (copy_run src d i j (Suc n)) ! t"
    proof (cases "t = i + n")
      case True
      then show ?thesis using t by (simp add: copy_run_def)
    next
      case False
      then show ?thesis using t by (auto simp: copy_run_def)
    qed
  qed
  then show ?thesis by (simp add: copy_run_def)
qed

lemma copy_run_append:
  "copy_run src (copy_run src d i j n) (i + n) (j + n) m = copy_run src d i j (n + m)"
proof -
  have "data (copy_run src (copy_run src d i j n) (i + n) (j + n) m) =
        data (copy_run src d i j (n + m))"
  proof (rule nth_equalityI)
    show "length (data (copy_run src (copy_run src d i j n) (i + n) (j + n) m)) =
          length (data (copy_run src d i j (n + m)))" by simp
  next
    fix t assume "t < length (data (copy_run src (copy_run src d i j n) (i + n) (j + n) m))"
    then have t: "t < length (data d)" by simp
    show "data (copy_run src (copy_run src d i j n) (i + n) (j + n) m) ! t =
          data (copy_run src d i j (n + m)) ! t"
      using t by (auto simp: copy_run_def)
  qed
  then show ?thesis by (simp add: copy_run_def)
qed

text \<open>The inner loop of FastExtractPatch copies a run.\<close>

lemma FastExtractPatch_inner:
  assumes "i + n \<le> length (data d)" "j + n \<le> length (data src)"
  shows "for_loop [0..<n] (\<lambda>el (i, j, d).
              case rd src j of
                None \<Rightarrow> None
              | Some v \<Rightarrow> (case wr d i v of None \<Rightarrow> None | Some d' \<Rightarrow> Some (i + 1, j + 1, d')))
           (int i, int j, d) = Some (int (i + n), int (j + n), copy_run src d i j n)"
  using assms
proof (induction n)
  case 0
  then show ?case by simp
next
  case (Suc n)
  then have IH: "for_loop [0..<n] (\<lambda>el (i, j, d).
              case rd src j of
                None \<Rightarrow> None
              | Some v \<Rightarrow> (case wr d i v of None \<Rightarrow> None | Some d' \<Rightarrow> Some (i + 1, j + 1, d')))
           (int i, int j, d) = Some (int (i + n), int (j + n), copy_run src d i j n)"
    by simp
  have r: "rd src (int (j + n)) = Some (data src ! (j + n))"
    using Suc.prems by (simp add: rd_def del: of_nat_add)
  have w: "wr (copy_run src d i j n) (int (i + n)) v =
      Some ((copy_run src d i j n)\<lparr>data := (data (copy_run src d i j n))[i + n := v]\<rparr>)" for v
    using Suc.prems by (simp add: wr_def del: of_nat_add)
  have st: "i + n < length (data d)" using Suc.prems by simp
  show ?case
    unfolding upt_Suc_append [OF le0] for_loop_snoc IH
    by (simp add: r w copy_run_step [OF st] del: of_nat_add)
qed

text \<open>So does the loop over the channels of one pixel in ExtractPatch.\<close>

lemma ExtractPatch_chan:
  assumes "i + n \<le> length (data d)" "j + n \<le> length (data src)"
    and "\<And>chan. chan < n \<Longrightarrow> jf chan = int j + int chan"
    and "\<And>chan d'. chan < n \<Longrightarrow> channels d' = channels d \<Longrightarrow> columns d' = columns d \<Longrightarrow> idf d' chan = int i + int chan"
  shows "for_loop [0..<n] (\<lambda>chan d.
           case rd src (jf chan) of
             None \<Rightarrow> None
           | Some v \<Rightarrow> wr d (idf d chan) v) d = Some (copy_run src d i j n)"
  using assms
proof (induction n)
  case 0
  then show ?case by simp
next
  case (Suc n)
  then have IH: "for_loop [0..<n] (\<lambda>chan d.
           case rd src (jf chan) of
             None \<Rightarrow> None
           | Some v \<Rightarrow> wr d (idf d chan) v) d = Some (copy_run src d i j n)"
    by simp
  have r: "rd src (jf n) = Some (data src ! (j + n))"
    using Suc.prems by (simp add: rd_def nat_add_distrib)
  have "idf (copy_run src d i j n) n = int i + int n"
    using Suc.prems(4) [of n "copy_run src d i j n"] by simp
  then have w: "wr (copy_run src d i j n) (idf (copy_run src d i j n) n) v =
      Some ((copy_run src d i j n)\<lparr>data := (data (copy_run src d i j n))[i + n := v]\<rparr>)" for v
    using Suc.prems by (simp add: wr_def nat_add_distrib)
  have st: "i + n < length (data d)" using Suc.prems by simp
  show ?case
    unfolding upt_Suc_append [OF le0] for_loop_snoc IH
    by (simp add: r w copy_run_step [OF st])
qed

lemma rows_copied_fields [simp]:
  "rows (rows_copied src pr pc dst R) = rows dst"
  "columns (rows_copied src pr pc dst R) = columns dst"
  "channels (rows_copied src pr pc dst R) = channels dst"
  "length (data (rows_copied src pr pc dst R)) = length (data dst)"
  by (induction R) (simp_all add: rows_copied_def)

lemma rows_copied_Suc:
  "rows_copied src pr pc dst (Suc R) =
     copy_run src (rows_copied src pr pc dst R) (R * columns dst * channels dst)
       (((pr + R) * columns src + pc) * channels src) (columns dst * channels dst)"
  by (simp add: rows_copied_def)

lemma window_bounds:
  assumes "wf_image src" "wf_image dst" "channels dst = channels src"
    "pr + rows dst \<le> rows src" "pc + columns dst \<le> columns src" "R < rows dst" "m \<le> columns dst"
  shows "(R * columns dst + m) * channels dst \<le> length (data dst)"
    and "((pr + R) * columns src + pc) * channels src + m * channels src \<le> length (data src)"
proof -
  have "R * columns dst + m \<le> R * columns dst + columns dst" using assms by simp
  also have "\<dots> = Suc R * columns dst" by simp
  also have "\<dots> \<le> rows dst * columns dst" using assms by (intro mult_le_mono1) simp
  finally have "(R * columns dst + m) * channels dst \<le> rows dst * columns dst * channels dst"
    by (rule mult_le_mono1)
  then show "(R * columns dst + m) * channels dst \<le> length (data dst)"
    using assms by (simp add: wf_image_def)
  have "(pr + R) * columns src + pc + m \<le> (pr + R) * columns src + columns src" using assms by simp
  also have "\<dots> = Suc (pr + R) * columns src" by simp
  also have "\<dots> \<le> rows src * columns src" using assms by (intro mult_le_mono1) simp
  finally have "((pr + R) * columns src + pc + m) * channels src \<le> rows src * columns src * channels src"
    by (rule mult_le_mono1)
  then show "((pr + R) * columns src + pc) * channels src + m * channels src \<le> length (data src)"
    using assms by (simp add: wf_image_def algebra_simps)
qed

lemma ExtractPatch_cols:
  assumes "wf_image src" "wf_image dst" "channels dst = channels src"
    "pr + rows dst \<le> rows src" "pc + columns dst \<le> columns src" "R < rows dst"
    and d: "columns d = columns dst" "channels d = channels dst" "length (data d) = length (data dst)"
  shows "m \<le> columns dst \<Longrightarrow>
     for_loop [0..<m] (\<lambda>col.
         for_loop [0..<channels dst] (\<lambda>chan d.
           case rd src (ipos src (int pc + int col) (int pr + int R) (int chan)) of
             None \<Rightarrow> None
           | Some v \<Rightarrow> wr d (ipos d (int col) (int R) (int chan)) v)) d =
     Some (copy_run src d (R * columns dst * channels dst)
        (((pr + R) * columns src + pc) * channels src) (m * channels dst))"
proof (induction m)
  case 0
  then show ?case by simp
next
  case (Suc m)
  let ?C = "channels dst"
  let ?i = "R * columns dst * ?C"
  let ?j = "((pr + R) * columns src + pc) * channels src"
  let ?d' = "copy_run src d ?i ?j (m * ?C)"
  from Suc have IH: "for_loop [0..<m] (\<lambda>col.
         for_loop [0..<channels dst] (\<lambda>chan d.
           case rd src (ipos src (int pc + int col) (int pr + int R) (int chan)) of
             None \<Rightarrow> None
           | Some v \<Rightarrow> wr d (ipos d (int col) (int R) (int chan)) v)) d = Some ?d'"
    by simp
  have b1: "(R * columns dst + Suc m) * ?C \<le> length (data dst)"
    and b2: "?j + Suc m * channels src \<le> length (data src)"
    using window_bounds [OF assms(1-6), of "Suc m"] Suc.prems by simp_all
  have chan: "for_loop [0..<?C] (\<lambda>chan d.
           case rd src (ipos src (int pc + int m) (int pr + int R) (int chan)) of
             None \<Rightarrow> None
           | Some v \<Rightarrow> wr d (ipos d (int m) (int R) (int chan)) v) ?d' =
        Some (copy_run src ?d' (?i + m * ?C) (?j + m * ?C) ?C)"
  proof (rule ExtractPatch_chan)
    show "?i + m * ?C + ?C \<le> length (data ?d')"
      using b1 d by (simp add: algebra_simps)
    show "?j + m * ?C + ?C \<le> length (data src)"
      using b2 assms(3) by (simp add: algebra_simps)
    show "\<And>chan. chan < ?C \<Longrightarrow>
        ipos src (int pc + int m) (int pr + int R) (int chan) = int (?j + m * ?C) + int chan"
      using assms(3) by (simp add: ipos_def algebra_simps)
    show "\<And>chan d'. chan < ?C \<Longrightarrow> channels d' = channels ?d' \<Longrightarrow> columns d' = columns ?d' \<Longrightarrow>
        ipos d' (int m) (int R) (int chan) = int (?i + m * ?C) + int chan"
      using d by (simp add: ipos_def algebra_simps)
  qed
  have sm: "Suc m * ?C = m * ?C + ?C" by simp
  have e: "copy_run src ?d' (?i + m * ?C) (?j + m * ?C) ?C = copy_run src d ?i ?j (Suc m * ?C)"
    unfolding sm by (rule copy_run_append)
  show ?case
    unfolding upt_Suc_append [OF le0] for_loop_snoc IH option.case chan e ..
qed

lemma ExtractPatch_rows:
  assumes "wf_image src" "wf_image dst" "channels dst = channels src"
    "pr + rows dst \<le> rows src" "pc + columns dst \<le> columns src"
  shows "R \<le> rows dst \<Longrightarrow>
     for_loop [0..<R] (\<lambda>row.
       for_loop [0..<columns dst] (\<lambda>col.
         for_loop [0..<channels dst] (\<lambda>chan d.
           case rd src (ipos src (int pc + int col) (int pr + int row) (int chan)) of
             None \<Rightarrow> None
           | Some v \<Rightarrow> wr d (ipos d (int col) (int row) (int chan)) v))) dst =
     Some (rows_copied src pr pc dst R)"
proof (induction R)
  case 0
  then show ?case by (simp add: rows_copied_def)
next
  case (Suc R)
  then have IH: "for_loop [0..<R] (\<lambda>row.
       for_loop [0..<columns dst] (\<lambda>col.
         for_loop [0..<channels dst] (\<lambda>chan d.
           case rd src (ipos src (int pc + int col) (int pr + int row) (int chan)) of
             None \<Rightarrow> None
           | Some v \<Rightarrow> wr d (ipos d (int col) (int row) (int chan)) v))) dst =
     Some (rows_copied src pr pc dst R)" by simp
  have R: "R < rows dst" using Suc.prems by simp
  have cols: "for_loop [0..<columns dst] (\<lambda>col.
         for_loop [0..<channels dst] (\<lambda>chan d.
           case rd src (ipos src (int pc + int col) (int pr + int R) (int chan)) of
             None \<Rightarrow> None
           | Some v \<Rightarrow> wr d (ipos d (int col) (int R) (int chan)) v)) (rows_copied src pr pc dst R) =
     Some (copy_run src (rows_copied src pr pc dst R) (R * columns dst * channels dst)
        (((pr + R) * columns src + pc) * channels src) (columns dst * channels dst))"
    by (rule ExtractPatch_cols [OF assms R]) simp_all
  show ?case
    unfolding upt_Suc_append [OF le0] for_loop_snoc IH
    by (simp add: cols rows_copied_Suc)
qed

lemma FastExtractPatch_rows:
  assumes "wf_image src" "wf_image dst" "channels dst = channels src"
    "pr + rows dst \<le> rows src" "pc + columns dst \<le> columns src"
  shows "R \<le> rows dst \<Longrightarrow>
     for_loop [0..<R] (\<lambda>row s.
       case for_loop [0..<columns dst * channels dst] (\<lambda>el (i, j, d).
              case rd src j of
                None \<Rightarrow> None
              | Some v \<Rightarrow> (case wr d i v of None \<Rightarrow> None | Some d' \<Rightarrow> Some (i + 1, j + 1, d'))) s
       of None \<Rightarrow> None
        | Some (i, j, d) \<Rightarrow>
            Some (i, j + (int (columns src) - int (columns dst)) * int (channels src), d))
       (0, (int pr * int (columns src) + int pc) * int (channels src), dst) =
     Some (int (R * columns dst * channels dst),
           int (((pr + R) * columns src + pc) * channels src),
           rows_copied src pr pc dst R)"
proof (induction R)
  case 0
  then show ?case by (simp add: rows_copied_def)
next
  case (Suc R)
  let ?body = "(\<lambda>row s.
       case for_loop [0..<columns dst * channels dst] (\<lambda>el (i, j, d).
              case rd src j of
                None \<Rightarrow> None
              | Some v \<Rightarrow> (case wr d i v of None \<Rightarrow> None | Some d' \<Rightarrow> Some (i + 1, j + 1, d'))) s
       of None \<Rightarrow> None
        | Some (i, j, d) \<Rightarrow>
            Some (i, j + (int (columns src) - int (columns dst)) * int (channels src), d))"
  let ?i = "R * columns dst * channels dst"
  let ?j = "((pr + R) * columns src + pc) * channels src"
  let ?n = "columns dst * channels dst"
  from Suc have IH: "for_loop [0..<R] ?body
       (0, (int pr * int (columns src) + int pc) * int (channels src), dst) =
     Some (int ?i, int ?j, rows_copied src pr pc dst R)" by simp
  have R: "R < rows dst" using Suc.prems by simp
  have b1: "?i + ?n \<le> length (data dst)" and b2: "?j + ?n \<le> length (data src)"
    using window_bounds [OF assms R, of "columns dst"] assms(3) by (simp_all add: algebra_simps)
  have inner: "for_loop [0..<?n] (\<lambda>el (i, j, d).
              case rd src j of
                None \<Rightarrow> None
              | Some v \<Rightarrow> (case wr d i v of None \<Rightarrow> None | Some d' \<Rightarrow> Some (i + 1, j + 1, d')))
        (int ?i, int ?j, rows_copied src pr pc dst R) =
      Some (int (?i + ?n), int (?j + ?n), copy_run src (rows_copied src pr pc dst R) ?i ?j ?n)"
    by (rule FastExtractPatch_inner) (use b1 b2 in simp_all)
  have cd: "columns dst \<le> columns src" using assms by simp
  have i': "int (?i + ?n) = int (Suc R * columns dst * channels dst)"
    by (simp add: algebra_simps)
  have j': "int (?j + ?n) + (int (columns src) - int (columns dst)) * int (channels src) =
      int (((pr + Suc R) * columns src + pc) * channels src)"
    using assms(3) by (simp add: algebra_simps)
  show ?case
    unfolding upt_Suc_append [OF le0] for_loop_snoc IH
    using inner i' j' by (simp add: rows_copied_Suc del: of_nat_add of_nat_mult)
qed

lemma nth_copy_run:
  "t < length (data d) \<Longrightarrow>
   data (copy_run src d i j n) ! t =
     (if i \<le> t \<and> t < i + n then data src ! (j + (t - i)) else data d ! t)"
  by (simp add: copy_run_def)

lemma rows_copied_nth:
  assumes t: "t < length (data dst)"
  shows "data (rows_copied src pr pc dst R) ! t =
     (if t < R * (columns dst * channels dst)
      then data src ! (((pr + t div (columns dst * channels dst)) * columns src + pc) * channels src
                        + t mod (columns dst * channels dst))
      else data dst ! t)"
proof (induction R)
  case 0
  then show ?case by (simp add: rows_copied_def)
next
  case (Suc R)
  let ?n = "columns dst * channels dst"
  have i: "R * columns dst * channels dst = R * ?n" by simp
  have "data (rows_copied src pr pc dst (Suc R)) ! t =
      (if R * ?n \<le> t \<and> t < R * ?n + ?n
       then data src ! (((pr + R) * columns src + pc) * channels src + (t - R * ?n))
       else data (rows_copied src pr pc dst R) ! t)"
    unfolding rows_copied_Suc i using t by (subst nth_copy_run) simp_all
  also have "\<dots> = (if t < Suc R * ?n
      then data src ! (((pr + t div ?n) * columns src + pc) * channels src + t mod ?n)
      else data dst ! t)"
  proof (cases "R * ?n \<le> t \<and> t < R * ?n + ?n")
    case True
    then have "t div ?n = R"
      by (metis add.commute div_nat_eqI mult.commute mult_Suc_right)
    moreover from this have "t mod ?n = t - R * ?n"
      by (metis add_diff_cancel_left' mult.commute mult_div_mod_eq)
    ultimately show ?thesis using True by simp
  next
    case False
    then show ?thesis using Suc.IH by auto
  qed
  finally show ?case .
qed

lemma pixel_index:
  assumes "col < W" "ch < (C::nat)"
  shows "((row * W + col) * C + ch) div (W * C) = row"
    and "((row * W + col) * C + ch) mod (W * C) = col * C + ch"
proof -
  have lt: "col * C + ch < W * C"
  proof -
    have "col * C + ch < col * C + C" using assms by simp
    also have "\<dots> = Suc col * C" by simp
    also have "\<dots> \<le> W * C" using assms by (intro mult_le_mono1) simp
    finally show ?thesis .
  qed
  have e: "(row * W + col) * C + ch = row * (W * C) + (col * C + ch)"
    by (simp add: algebra_simps)
  have pos: "0 < W * C" using lt by (cases "W * C") simp_all
  show "((row * W + col) * C + ch) div (W * C) = row"
    unfolding e using lt pos by (simp add: div_mult_self3)
  show "((row * W + col) * C + ch) mod (W * C) = col * C + ch"
    unfolding e using lt by (simp add: mod_mult_self3)
qed

lemma pos_bound:
  assumes "wf_image img" "row < rows img" "col < columns img" "ch < channels img"
  shows "pos img col row ch < length (data img)"
proof -
  have "(row * columns img + col) * channels img + ch < (row * columns img + col) * channels img + channels img"
    using assms by simp
  also have "\<dots> = Suc (row * columns img + col) * channels img" by simp
  also have "\<dots> \<le> (rows img * columns img) * channels img"
  proof (rule mult_le_mono1)
    have "Suc (row * columns img + col) \<le> row * columns img + columns img" using assms by simp
    also have "\<dots> = Suc row * columns img" by simp
    also have "\<dots> \<le> rows img * columns img" using assms by (intro mult_le_mono1) simp
    finally show "Suc (row * columns img + col) \<le> rows img * columns img" .
  qed
  finally show ?thesis using assms by (simp add: pos_def wf_image_def)
qed

lemma extract_patch_result:
  assumes "wf_image src" "wf_image dst" "channels dst = channels src"
    "0 \<le> pr" "0 \<le> pc"
    "pr + int (rows dst) \<le> int (rows src)" "pc + int (columns dst) \<le> int (columns src)"
  shows "\<exists>d. FastExtractPatch src pr pc dst = Some d \<and> ExtractPatch src pr pc dst = Some d \<and>
             rows d = rows dst \<and> columns d = columns dst \<and> channels d = channels dst \<and>
             wf_image d \<and>
             (\<forall>row < rows dst. \<forall>col < columns dst. \<forall>ch < channels dst.
                val d col row ch = val src (nat pc + col) (nat pr + row) ch)"
proof -
  define pr' pc' where "pr' = nat pr" and "pc' = nat pc"
  have pr: "pr = int pr'" and pc: "pc = int pc'" using assms by (simp_all add: pr'_def pc'_def)
  have win: "pr' + rows dst \<le> rows src" "pc' + columns dst \<le> columns src"
    using assms pr pc by simp_all
  let ?d = "rows_copied src pr' pc' dst (rows dst)"
  have fast: "FastExtractPatch src pr pc dst = Some ?d"
    unfolding FastExtractPatch_def FastExtractPatch_loops_def pr pc
    using FastExtractPatch_rows [OF assms(1-3) win, of "rows dst"] by simp
  have slow: "ExtractPatch src pr pc dst = Some ?d"
    unfolding ExtractPatch_def pr pc
    using ExtractPatch_rows [OF assms(1-3) win, of "rows dst"] by simp
  have wf: "wf_image ?d" using assms(2) by (simp add: wf_image_def)
  have vals: "\<forall>row < rows dst. \<forall>col < columns dst. \<forall>ch < channels dst.
                val ?d col row ch = val src (nat pc + col) (nat pr + row) ch"
  proof (intro allI impI)
    fix row col ch assume b: "row < rows dst" "col < columns dst" "ch < channels dst"
    let ?t = "(row * columns dst + col) * channels dst + ch"
    have t: "?t < length (data dst)"
      using pos_bound [OF assms(2) b] by (simp add: pos_def)
    have "?t < rows dst * columns dst * channels dst"
      using t assms(2) by (simp add: wf_image_def)
    then have lt: "?t < rows dst * (columns dst * channels dst)" by (simp add: mult.assoc)
    have "val ?d col row ch = data ?d ! ?t" by (simp add: val_def pos_def)
    also have "\<dots> = data src ! (((pr' + row) * columns src + pc') * channels src
                        + (col * channels dst + ch))"
      unfolding rows_copied_nth [OF t] using lt pixel_index [OF b(2,3), of row] by simp
    also have "\<dots> = val src (nat pc + col) (nat pr + row) ch"
      using assms(3) by (simp add: val_def pos_def pr'_def pc'_def algebra_simps)
    finally show "val ?d col row ch = val src (nat pc + col) (nat pr + row) ch" .
  qed
  show ?thesis using fast slow wf vals by simp
qed

text \<open>
  Claim C8, as amended. When the patch has as many channels as the source and its window
  at the anchor \<open>(pr, pc)\<close> lies inside the source, \<open>FastExtractPatch\<close> and
  \<open>ExtractPatch\<close> both succeed and write the same patch: the element at
  \<open>(col, row, ch)\<close> is the source's at \<open>(pc + col, pr + row, ch)\<close>.
\<close>

theorem FastExtractPatch_equals_ExtractPatch:
  assumes "wf_image src" "wf_image dst" "channels dst = channels src"
    "0 \<le> pr" "0 \<le> pc"
    "pr + int (rows dst) \<le> int (rows src)" "pc + int (columns dst) \<le> int (columns src)"
  shows "\<exists>d. FastExtractPatch src pr pc dst = Some d \<and> ExtractPatch src pr pc dst = Some d \<and>
             rows d = rows dst \<and> columns d = columns dst \<and> channels d = channels dst \<and>
             wf_image d \<and>
             (\<forall>row < rows dst. \<forall>col < columns dst. \<forall>ch < channels dst.
                val d col row ch = val src (nat pc + col) (nat pr + row) ch)"
  by (rule extract_patch_result [OF assms])

text \<open>
  Claim C8 as stated fails when the patch has fewer channels than the source: for a
  source of one row, two columns and two channels and a patch of one row, two columns and
  one channel at the anchor \<open>(0, 0)\<close>, \<open>ExtractPatch\<close> writes channel 0 of both pixels
  and \<open>FastExtractPatch\<close> the first two elements of the array.
\<close>

theorem ExtractPatch_channel_counterexample:
  "ExtractPatch \<lparr>rows = 1, columns = 2, channels = 2, data = [Fin 1, Fin 2, Fin 3, Fin 4]\<rparr> 0 0
     \<lparr>rows = 1, columns = 2, channels = 1, data = [Fin 0, Fin 0]\<rparr> =
     Some \<lparr>rows = 1, columns = 2, channels = 1, data = [Fin 1, Fin 3]\<rparr> \<and>
   FastExtractPatch \<lparr>rows = 1, columns = 2, channels = 2, data = [Fin 1, Fin 2, Fin 3, Fin 4]\<rparr> 0 0
     \<lparr>rows = 1, columns = 2, channels = 1, data = [Fin 0, Fin 0]\<rparr> =
     Some \<lparr>rows = 1, columns = 2, channels = 1, data = [Fin 1, Fin 2]\<rparr>"
  by code_simp

text \<open>The theorem at a source of two rows and three columns and the anchor \<open>(1, 1)\<close>.\<close>

theorem FastExtractPatch_equals_ExtractPatch_witness:
  "wf_image \<lparr>rows = 2, columns = 3, channels = 2,
      data = [Fin 1, Fin 2, Fin 3, Fin 4, Fin 5, Fin 6, Fin 7, Fin 8, Fin 9, Fin 10, Fin 11, Fin 12]\<rparr> \<and>
   wf_image \<lparr>rows = 1, columns = 2, channels = 2, data = [Fin 0, Fin 0, Fin 0, Fin 0]\<rparr> \<and>
   (0::int) \<le> 1 \<and> (1::int) + int 1 \<le> int 2 \<and> (1::int) + int 2 \<le> int 3 \<and>
   FastExtractPatch \<lparr>rows = 2, columns = 3, channels = 2,
      data = [Fin 1, Fin 2, Fin 3, Fin 4, Fin 5, Fin 6, Fin 7, Fin 8, Fin 9, Fin 10, Fin 11, Fin 12]\<rparr>
      1 1 \<lparr>rows = 1, columns = 2, channels = 2, data = [Fin 0, Fin 0, Fin 0, Fin 0]\<rparr> =
   ExtractPatch \<lparr>rows = 2, columns = 3, channels = 2,
      data = [Fin 1, Fin 2, Fin 3, Fin 4, Fin 5, Fin 6, Fin 7, Fin 8, Fin 9, Fin 10, Fin 11, Fin 12]\<rparr>
      1 1 \<lparr>rows = 1, columns = 2, channels = 2, data = [Fin 0, Fin 0, Fin 0, Fin 0]\<rparr> \<and>
   ExtractPatch \<lparr>rows = 2, columns = 3, channels = 2,
      data = [Fin 1, Fin 2, Fin 3, Fin 4, Fin 5, Fin 6, Fin 7, Fin 8, Fin 9, Fin 10, Fin 11, Fin 12]\<rparr>
      1 1 \<lparr>rows = 1, columns = 2, channels = 2, data = [Fin 0, Fin 0, Fin 0, Fin 0]\<rparr> \<noteq> None"
  using FastExtractPatch_equals_ExtractPatch
    [of "\<lparr>rows = 2, columns = 3, channels = 2,
      data = [Fin 1, Fin 2, Fin 3, Fin 4, Fin 5, Fin 6, Fin 7, Fin 8, Fin 9, Fin 10, Fin 11, Fin 12]\<rparr>"
      "\<lparr>rows = 1, columns = 2, channels = 2, data = [Fin 0, Fin 0, Fin 0, Fin 0]\<rparr>" 1 1]
  by (auto simp: wf_image_def)

subsection \<open>Regression plane\<close>





lemma fold_fadd_sum:
  assumes "\<And>i. i < n \<Longrightarrow> t i = Fin (f i)"
  shows "fold (\<lambda>i acc. fadd acc (t i)) [0..<n] (Fin s) = Fin (s + sum f {..<n})"
  using assms by (induction n) simp_all

lemma nested_fold_fadd_sum:
  assumes "\<And>row col. row < H \<Longrightarrow> col < W \<Longrightarrow> t row col = Fin (f row col)"
  shows "fold (\<lambda>row. fold (\<lambda>col acc. fadd acc (t row col)) [0..<W]) [0..<H] (Fin s) =
         Fin (s + (\<Sum>row<H. \<Sum>col<W. f row col))"
  using assms
proof (induction H)
  case 0
  then show ?case by simp
next
  case (Suc H)
  have "fold (\<lambda>col acc. fadd acc (t H col)) [0..<W] (Fin s') = Fin (s' + (\<Sum>col<W. f H col))" for s'
    by (rule fold_fadd_sum) (simp add: Suc.prems)
  then show ?case using Suc by (simp add: add.assoc)
qed

lemma val_finite:
  assumes "wf_image img" "finite_image img" "row < rows img" "col < columns img" "ch < channels img"
  shows "val img col row ch = Fin (rval img col row ch)"
proof -
  have "is_fin (data img ! pos img col row ch)"
    using assms(2) pos_bound [OF assms(1,3,4,5)] by (simp add: finite_image_def list_all_length)
  then show ?thesis by (auto simp: is_fin_iff rval_def val_def real_of_flt_def)
qed

lemma fsub_Fin [simp]: "fsub (Fin a) (Fin b) = Fin (a - b)"
  by (simp add: fsub_def)





subsection \<open>Tiling\<close>

lemma smod_pos_zero_iff: "0 < a \<Longrightarrow> 0 < b \<Longrightarrow> (a::int) smod b = 0 \<longleftrightarrow> b dvd a"
  by (simp add: signed_modulo_int_def sgn_if dvd_eq_mod_eq_0)

lemma sdiv_pos: "0 < a \<Longrightarrow> 0 < b \<Longrightarrow> (a::int) sdiv b = a div b"
  by (simp add: signed_divide_int_def sgn_if)

lemma lower_divisor_greatest:
  assumes "0 < tiles"
  shows "1 \<le> r \<Longrightarrow>
     \<exists>d. lower_divisor tiles r = Some d \<and> 1 \<le> d \<and> d \<le> r \<and> d dvd tiles \<and>
         (\<forall>e. d < e \<and> e \<le> r \<longrightarrow> \<not> e dvd tiles)"
proof (induction "nat r" arbitrary: r)
  case 0
  then show ?case by simp
next
  case (Suc n)
  show ?case
  proof (cases "r dvd tiles")
    case True
    then have "lower_divisor tiles r = Some r"
      using Suc.prems assms by (subst lower_divisor.simps) (simp add: smod_pos_zero_iff)
    with True Suc.prems show ?thesis by auto
  next
    case False
    then have r1: "r \<noteq> 1" by auto
    with Suc.prems have r2: "1 \<le> r - 1" by simp
    have n: "n = nat (r - 1)" using Suc.hyps(2) by simp
    from Suc.hyps(1) [OF n r2] obtain d where d: "lower_divisor tiles (r - 1) = Some d"
      "1 \<le> d" "d \<le> r - 1" "d dvd tiles" "\<forall>e. d < e \<and> e \<le> r - 1 \<longrightarrow> \<not> e dvd tiles"
      by blast
    have "lower_divisor tiles r = lower_divisor tiles (r - 1)"
      using False Suc.prems assms by (subst lower_divisor.simps) (simp add: smod_pos_zero_iff)
    moreover have "\<forall>e. d < e \<and> e \<le> r \<longrightarrow> \<not> e dvd tiles"
    proof (intro allI impI)
      fix e assume "d < e \<and> e \<le> r"
      then have "e = r \<or> (d < e \<and> e \<le> r - 1)" by auto
      then show "\<not> e dvd tiles" using False d(5) by auto
    qed
    ultimately show ?thesis using d by auto
  qed
qed

lemma upper_divisor_least:
  assumes "0 < tiles"
  shows "1 \<le> r \<Longrightarrow> r \<le> tiles \<Longrightarrow>
     \<exists>d. upper_divisor tiles r = Some d \<and> r \<le> d \<and> d \<le> tiles \<and> d dvd tiles \<and>
         (\<forall>e. r \<le> e \<and> e < d \<longrightarrow> \<not> e dvd tiles)"
proof (induction "nat (tiles - r)" arbitrary: r)
  case 0
  then have "r = tiles" by simp
  then have "upper_divisor tiles r = Some r"
    using assms by (subst upper_divisor.simps) (simp add: smod_pos_zero_iff)
  then show ?case using \<open>r = tiles\<close> by auto
next
  case (Suc n)
  show ?case
  proof (cases "r dvd tiles")
    case True
    then have "upper_divisor tiles r = Some r"
      using Suc.prems assms by (subst upper_divisor.simps) (simp add: smod_pos_zero_iff)
    with True Suc.prems show ?thesis by auto
  next
    case False
    have lt: "r < tiles" using Suc.hyps(2) by simp
    have n: "n = nat (tiles - (r + 1))" using Suc.hyps(2) by simp
    have "1 \<le> r + 1" "r + 1 \<le> tiles" using Suc.prems lt by simp_all
    from Suc.hyps(1) [OF n this] obtain d where d: "upper_divisor tiles (r + 1) = Some d"
      "r + 1 \<le> d" "d \<le> tiles" "d dvd tiles" "\<forall>e. r + 1 \<le> e \<and> e < d \<longrightarrow> \<not> e dvd tiles"
      by blast
    have "upper_divisor tiles r = upper_divisor tiles (r + 1)"
      using False Suc.prems assms by (subst upper_divisor.simps) (simp add: smod_pos_zero_iff)
    moreover have "\<forall>e. r \<le> e \<and> e < d \<longrightarrow> \<not> e dvd tiles"
    proof (intro allI impI)
      fix e assume "r \<le> e \<and> e < d"
      then have "e = r \<or> (r + 1 \<le> e \<and> e < d)" by auto
      then show "\<not> e dvd tiles" using False d(5) by auto
    qed
    ultimately show ?thesis using d by auto
  qed
qed

text \<open>
  The value of \<^verbatim>\<open>best_r\<close>: the three roundings and the conversions keep it within a
  relative \<open>2\<^sup>-\<^sup>2\<^sup>1\<close> of \<open>\<surd>(a / b)\<close>.
\<close>

lemma quotient_times: "(d::real) \<noteq> 0 \<Longrightarrow> c / d * d = c"
  by simp

lemma best_r_value:
  assumes a: "0 < a" "in32 a" and b: "0 < b" "in32 b"
  shows "\<exists>x. sqrt32 (div32 (of_int32 a) (of_int32 b)) = Fin x \<and> 0 \<le> x \<and> x \<le> 65536 \<and>
    sqrt (real_of_int a / real_of_int b) * (1 - 1 / 2 ^ 21) \<le> x \<and>
    x \<le> sqrt (real_of_int a / real_of_int b) * (1 + 1 / 2 ^ 21)"
proof -
  define A where "A = real_of_int a"
  define B where "B = real_of_int b"
  define f where "f = sqrt (A / B)"
  define u :: real where "u = 1 / 2 ^ 23"
  have A: "1 \<le> A" "A \<le> 2 ^ 31" using a by (simp_all add: A_def in32_def)
  have B: "1 \<le> B" "B \<le> 2 ^ 31" using b by (simp_all add: B_def in32_def)
  have u: "0 < u" "u < 1" by (simp_all add: u_def)
  obtain a' where a': "round32 A = Fin a'" "A * (1 - u) \<le> a'" "a' \<le> A * (1 + u)"
    using round32_relative [of A] A unfolding u_def by (auto intro: order_trans)
  obtain b' where b': "round32 B = Fin b'" "B * (1 - u) \<le> b'" "b' \<le> B * (1 + u)"
    using round32_relative [of B] B unfolding u_def by (auto intro: order_trans)
  have a'pos: "1 / 2 \<le> a'"
  proof -
    have "1 / 2 \<le> 1 * (1 - u)" by (simp add: u_def)
    also have "\<dots> \<le> A * (1 - u)" using A(1) u by (intro mult_right_mono) simp_all
    finally show ?thesis using a'(2) by linarith
  qed
  have b'pos: "1 / 2 \<le> b'"
  proof -
    have "1 / 2 \<le> 1 * (1 - u)" by (simp add: u_def)
    also have "\<dots> \<le> B * (1 - u)" using B(1) u by (intro mult_right_mono) simp_all
    finally show ?thesis using b'(2) by linarith
  qed
  have a'up: "a' \<le> 2 ^ 32"
  proof -
    have "A * (1 + u) \<le> 2 ^ 31 * (1 + u)" using A(2) u by (intro mult_right_mono) simp_all
    also have "\<dots> \<le> 2 ^ 32" by (simp add: u_def)
    finally show ?thesis using a'(3) by linarith
  qed
  have b'up: "b' \<le> 2 ^ 32"
  proof -
    have "B * (1 + u) \<le> 2 ^ 31 * (1 + u)" using B(2) u by (intro mult_right_mono) simp_all
    also have "\<dots> \<le> 2 ^ 32" by (simp add: u_def)
    finally show ?thesis using b'(3) by linarith
  qed
  define q where "q = a' / b'"
  have fq: "fdiv (Fin a') (Fin b') = Fin q" using b'pos by (simp add: q_def)
  have qlo: "1 / 2 ^ 33 \<le> q"
  proof -
    have "1 / 2 ^ 33 = (1 / 2) / (2::real) ^ 32" by simp
    also have "\<dots> \<le> a' / 2 ^ 32" using a'pos by (simp add: divide_right_mono)
    also have "\<dots> \<le> a' / b'" using b'up b'pos a'pos by (intro divide_left_mono) simp_all
    finally show ?thesis by (simp add: q_def)
  qed
  have qup: "q \<le> 2 ^ 33"
  proof -
    have "a' / b' \<le> 2 ^ 32 / b'" using a'up b'pos by (intro divide_right_mono) simp_all
    also have "\<dots> \<le> 2 ^ 32 / (1 / 2)" using b'pos by (intro divide_left_mono) simp_all
    finally show ?thesis by (simp add: q_def)
  qed
  have AB: "0 < A / B" using A B by simp
  have q_up: "q \<le> A / B * ((1 + u) / (1 - u))"
  proof -
    have "a' / b' \<le> (A * (1 + u)) / b'" using a'(3) b'pos by (intro divide_right_mono) simp_all
    also have "\<dots> \<le> (A * (1 + u)) / (B * (1 - u))"
      using b'(2) b'pos A B u by (intro divide_left_mono) simp_all
    finally show ?thesis by (simp add: q_def)
  qed
  have q_lo: "A / B * ((1 - u) / (1 + u)) \<le> q"
  proof -
    have "(A * (1 - u)) / (B * (1 + u)) \<le> (A * (1 - u)) / b'"
      using b'(3) b'pos A B u by (intro divide_left_mono) simp_all
    also have "\<dots> \<le> a' / b'" using a'(2) b'pos by (intro divide_right_mono) simp_all
    finally show ?thesis by (simp add: q_def)
  qed
  obtain q' where q': "round32 q = Fin q'" "q * (1 - u) \<le> q'" "q' \<le> q * (1 + u)"
    using round32_relative [of q] qlo qup unfolding u_def by (auto intro: order_trans)
  have q'pos: "0 \<le> q'"
  proof -
    have "0 \<le> q * (1 - u)" using qlo u by simp
    then show ?thesis using q'(2) by linarith
  qed
  define s where "s = sqrt q'"
  have fs: "fsqrt (Fin q') = Fin s" using q'pos by (simp add: s_def)
  have q'_up: "q' \<le> A / B * ((1 + u)\<^sup>2 / (1 - u))"
  proof -
    have "q' \<le> q * (1 + u)" by (rule q'(3))
    also have "\<dots> \<le> A / B * ((1 + u) / (1 - u)) * (1 + u)"
      using q_up u by (intro mult_right_mono) simp_all
    finally show ?thesis by (simp add: power2_eq_square mult.assoc)
  qed
  have q'_lo: "A / B * ((1 - u)\<^sup>2 / (1 + u)) \<le> q'"
  proof -
    have "A / B * ((1 - u) / (1 + u)) * (1 - u) \<le> q * (1 - u)"
      using q_lo u by (intro mult_right_mono) simp_all
    also have "\<dots> \<le> q'" by (rule q'(2))
    finally show ?thesis by (simp add: power2_eq_square mult.assoc)
  qed
  have AB0: "0 \<le> A / B" using AB by (rule less_imp_le)
  have f0: "0 \<le> f" using AB0 by (simp add: f_def)
  have f2: "f\<^sup>2 = A / B" using AB0 by (simp add: f_def)
  define hi :: real where "hi = (1 + 1 / 2 ^ 21) / (1 + u)"
  define lo :: real where "lo = (1 - 1 / 2 ^ 21) / (1 - u)"
  have hi: "0 \<le> hi" "(1 + u)\<^sup>2 / (1 - u) \<le> hi\<^sup>2"
    by (simp_all add: hi_def u_def power2_eq_square)
  have lo: "0 \<le> lo" "lo\<^sup>2 \<le> (1 - u)\<^sup>2 / (1 + u)"
    by (simp_all add: lo_def u_def power2_eq_square)
  have s_up: "s \<le> f * hi"
  proof -
    have "q' \<le> f\<^sup>2 * hi\<^sup>2"
    proof -
      have "A / B * ((1 + u)\<^sup>2 / (1 - u)) \<le> A / B * hi\<^sup>2"
        using AB0 hi(2) by (intro mult_left_mono)
      then show ?thesis using q'_up by (simp add: f2)
    qed
    then have "q' \<le> (f * hi)\<^sup>2" by (simp add: power_mult_distrib)
    moreover have "0 \<le> f * hi" using f0 hi(1) by simp
    ultimately show ?thesis unfolding s_def by (intro real_le_lsqrt) simp_all
  qed
  have s_lo: "f * lo \<le> s"
  proof -
    have "f\<^sup>2 * lo\<^sup>2 \<le> q'"
    proof -
      have "A / B * lo\<^sup>2 \<le> A / B * ((1 - u)\<^sup>2 / (1 + u))"
        using AB0 lo(2) by (intro mult_left_mono)
      then show ?thesis using q'_lo by (simp add: f2)
    qed
    then have "(f * lo)\<^sup>2 \<le> q'" by (simp add: power_mult_distrib)
    then show ?thesis unfolding s_def by (rule real_le_rsqrt)
  qed
  have flo: "1 / 2 ^ 16 \<le> f"
  proof -
    have "((1::real) / 2 ^ 16)\<^sup>2 = 1 / 2 ^ 32" by (simp add: power2_eq_square)
    also have "\<dots> \<le> 1 / 2 ^ 31" by simp
    also have "\<dots> \<le> 1 / B" using B by (intro divide_left_mono) simp_all
    also have "\<dots> \<le> A / B" using A B by (intro divide_right_mono) simp_all
    finally show ?thesis unfolding f_def by (rule real_le_rsqrt)
  qed
  have fup: "f \<le> 46341"
  proof -
    have "A / B \<le> A / 1" using A B by (intro divide_left_mono) simp_all
    also have "\<dots> \<le> 2 ^ 31" using A by simp
    also have "\<dots> \<le> (46341::real)\<^sup>2" by (simp add: power2_eq_square)
    finally show ?thesis unfolding f_def by (intro real_le_lsqrt) simp_all
  qed
  have slo: "1 / 2 ^ 100 \<le> s"
  proof -
    have "(1::real) / 2 ^ 100 \<le> 1 / 2 ^ 16 * lo" by (simp add: lo_def u_def)
    also have "\<dots> \<le> f * lo" using flo lo(1) by (intro mult_right_mono) simp_all
    finally show ?thesis using s_lo by linarith
  qed
  have sup: "s \<le> 2 ^ 127"
  proof -
    have "f * hi \<le> 46341 * hi" using fup hi(1) by (intro mult_right_mono) simp_all
    also have "\<dots> \<le> 2 ^ 127" by (simp add: hi_def u_def)
    finally show ?thesis using s_up by linarith
  qed
  obtain s' where s': "round32 s = Fin s'" "s * (1 - u) \<le> s'" "s' \<le> s * (1 + u)"
    using round32_relative [of s] slo sup unfolding u_def by (auto intro: order_trans)
  have s'_up: "s' \<le> f * (1 + 1 / 2 ^ 21)"
  proof -
    have "s * (1 + u) \<le> f * hi * (1 + u)" using s_up u by (intro mult_right_mono) simp_all
    also have "\<dots> = f * (hi * (1 + u))" by (simp only: mult.assoc)
    also have "hi * (1 + u) = 1 + 1 / 2 ^ 21"
    proof -
      have "1 + u \<noteq> 0" using u by linarith
      then show ?thesis unfolding hi_def by (rule quotient_times)
    qed
    finally show ?thesis using s'(3) by linarith
  qed
  have s'_lo: "f * (1 - 1 / 2 ^ 21) \<le> s'"
  proof -
    have "lo * (1 - u) = 1 - 1 / 2 ^ 21"
    proof -
      have "1 - u \<noteq> 0" using u by linarith
      then show ?thesis unfolding lo_def by (rule quotient_times)
    qed
    then have "f * (1 - 1 / 2 ^ 21) = f * (lo * (1 - u))" by (simp only:)
    also have "\<dots> = f * lo * (1 - u)" by (simp only: mult.assoc)
    also have "\<dots> \<le> s * (1 - u)" using s_lo u by (intro mult_right_mono) simp_all
    finally show ?thesis using s'(2) by linarith
  qed
  have s'0: "0 \<le> s'"
  proof -
    have "0 \<le> f * (1 - 1 / 2 ^ 21)" using f0 by simp
    then show ?thesis using s'_lo by linarith
  qed
  have s'top: "s' \<le> 65536"
  proof -
    have "f * (1 + 1 / 2 ^ 21) \<le> 46341 * (1 + 1 / 2 ^ 21)"
      using fup by (intro mult_right_mono) simp_all
    also have "\<dots> \<le> 65536" by simp
    finally show ?thesis using s'_up by linarith
  qed
  have e1: "of_int32 a = Fin a'" unfolding of_int32_def flt_of_int_def A_def [symmetric]
    by (simp add: a'(1))
  have e2: "of_int32 b = Fin b'" unfolding of_int32_def flt_of_int_def B_def [symmetric]
    by (simp add: b'(1))
  have e3: "div32 (Fin a') (Fin b') = Fin q'" unfolding div32_def fq by (simp add: q'(1))
  have e4: "sqrt32 (Fin q') = Fin s'" unfolding sqrt32_def fs by (simp add: s'(1))
  have "sqrt32 (div32 (of_int32 a) (of_int32 b)) = Fin s'"
    unfolding e1 e2 e3 e4 by (rule refl)
  then show ?thesis using s'0 s'top s'_lo s'_up unfolding f_def A_def B_def by blast
qed

lemma ComputeTiling_cases:
  assumes pos: "0 < rws" "0 < cols" "0 < tiles" and fit: "in32 (tiles * rws)"
    and best: "sqrt32 (div32 (of_int32 (tiles * rws)) (of_int32 cols)) = Fin x"
    and x: "0 \<le> x" "x \<le> 65536"
  shows "\<lfloor>x\<rfloor> < 1 \<Longrightarrow> ComputeTiling rws cols tiles = Some (1, tiles)"
    and "1 \<le> \<lfloor>x\<rfloor> \<Longrightarrow> tiles < \<lfloor>x\<rfloor> + 1 \<Longrightarrow> ComputeTiling rws cols tiles = Some (tiles, 1)"
    and "1 \<le> \<lfloor>x\<rfloor> \<Longrightarrow> \<lfloor>x\<rfloor> + 1 \<le> tiles \<Longrightarrow>
         lower_divisor tiles \<lfloor>x\<rfloor> = Some lo \<Longrightarrow> upper_divisor tiles (\<lfloor>x\<rfloor> + 1) = Some up \<Longrightarrow>
         ComputeTiling rws cols tiles =
           (if wrap32 (wrap32 (up * lo) * cols) > tiles * rws
            then Some (lo, tiles sdiv lo) else Some (up, tiles sdiv up))"
proof -
  have fl: "0 \<le> \<lfloor>x\<rfloor>" "\<lfloor>x\<rfloor> \<le> 65536" using x by (simp_all add: floor_le_iff le_floor_iff)
  have cast: "flt_to_int (Fin x) = Some \<lfloor>x\<rfloor>"
    using x fl by (simp add: flt_to_int_def)
  have up: "wrap32 (\<lfloor>x\<rfloor> + 1) = \<lfloor>x\<rfloor> + 1"
    using fl by (intro wrap32_id) (simp add: in32_def)
  note unfold = ComputeTiling_def wrap32_id [OF fit] best cast up Let_def option.case
  show "\<lfloor>x\<rfloor> < 1 \<Longrightarrow> ComputeTiling rws cols tiles = Some (1, tiles)"
    unfolding unfold by simp
  show "1 \<le> \<lfloor>x\<rfloor> \<Longrightarrow> tiles < \<lfloor>x\<rfloor> + 1 \<Longrightarrow> ComputeTiling rws cols tiles = Some (tiles, 1)"
    unfolding unfold by simp
  show "1 \<le> \<lfloor>x\<rfloor> \<Longrightarrow> \<lfloor>x\<rfloor> + 1 \<le> tiles \<Longrightarrow>
         lower_divisor tiles \<lfloor>x\<rfloor> = Some lo \<Longrightarrow> upper_divisor tiles (\<lfloor>x\<rfloor> + 1) = Some up \<Longrightarrow>
         ComputeTiling rws cols tiles =
           (if wrap32 (wrap32 (up * lo) * cols) > tiles * rws
            then Some (lo, tiles sdiv lo) else Some (up, tiles sdiv up))"
    unfolding unfold by simp
qed

text \<open>
  Claim C6, amended. For positive \<open>H\<close>, \<open>W\<close> and \<open>N\<close> with \<open>N H\<close> inside 32 bits,
  \<^verbatim>\<open>best_r\<close> is a finite \<^verbatim>\<open>float\<close> \<open>x\<close> within a relative \<open>2\<^sup>-\<^sup>2\<^sup>1\<close> of \<open>f = \<surd>(N H / W)\<close>, and
  \<open>ComputeTiling\<close> returns a pair \<open>(tr, tc)\<close> with \<open>tr tc = N\<close>. It is \<open>(1, N)\<close> when
  \<open>x < 1\<close> and \<open>(N, 1)\<close> when \<open>N \<le> \<lfloor>x\<rfloor>\<close>. Otherwise \<open>tr\<close> is one of two divisors of
  \<open>N\<close>: \<open>lo\<close>, the greatest divisor not above \<open>\<lfloor>x\<rfloor>\<close>, and \<open>up\<close>, the least divisor above
  \<open>\<lfloor>x\<rfloor>\<close>; it is \<open>lo\<close> when the 32-bit product \<open>up lo W\<close> exceeds \<open>N H\<close> and \<open>up\<close>
  otherwise, and the product does not wrap when \<open>N N W\<close> fits 32 bits. These are the
  nearest divisors on either side of \<open>\<lfloor>x\<rfloor>\<close>, not the two divisors nearest to \<open>f\<close>,
  and no mismatch is minimised: \<open>|tr tc W - N H|\<close> is the same for every divisor.
\<close>

theorem ComputeTiling_product:
  assumes pos: "0 < rws" "0 < cols" "0 < tiles" and fit: "in32 (tiles * rws)" "in32 cols"
  shows "\<exists>x tr tc.
      sqrt32 (div32 (of_int32 (tiles * rws)) (of_int32 cols)) = Fin x \<and>
      sqrt (real_of_int (tiles * rws) / real_of_int cols) * (1 - 1 / 2 ^ 21) \<le> x \<and>
      x \<le> sqrt (real_of_int (tiles * rws) / real_of_int cols) * (1 + 1 / 2 ^ 21) \<and>
      ComputeTiling rws cols tiles = Some (tr, tc) \<and> tr * tc = tiles \<and>
      0 < tr \<and> tr dvd tiles \<and>
      (x < 1 \<longrightarrow> tr = 1 \<and> tc = tiles) \<and>
      (tiles \<le> \<lfloor>x\<rfloor> \<longrightarrow> tr = tiles \<and> tc = 1) \<and>
      (1 \<le> x \<and> \<lfloor>x\<rfloor> < tiles \<longrightarrow>
         (\<exists>lo up.
            0 < lo \<and> lo dvd tiles \<and> lo \<le> \<lfloor>x\<rfloor> \<and>
            (\<forall>d. 0 < d \<and> d dvd tiles \<and> d \<le> \<lfloor>x\<rfloor> \<longrightarrow> d \<le> lo) \<and>
            up dvd tiles \<and> \<lfloor>x\<rfloor> < up \<and>
            (\<forall>d. d dvd tiles \<and> \<lfloor>x\<rfloor> < d \<longrightarrow> up \<le> d) \<and>
            tr = (if wrap32 (wrap32 (up * lo) * cols) > tiles * rws then lo else up) \<and>
            (in32 (tiles * tiles * cols) \<longrightarrow> wrap32 (wrap32 (up * lo) * cols) = up * lo * cols)))"
proof -
  define f where "f = sqrt (real_of_int (tiles * rws) / real_of_int cols)"
  have prod: "0 < tiles * rws" using pos by simp
  from best_r_value [OF prod fit(1) pos(2) fit(2)] obtain x where
    best: "sqrt32 (div32 (of_int32 (tiles * rws)) (of_int32 cols)) = Fin x"
    and x: "0 \<le> x" "x \<le> 65536"
    and near: "f * (1 - 1 / 2 ^ 21) \<le> x" "x \<le> f * (1 + 1 / 2 ^ 21)"
    unfolding f_def by blast
  note cases = ComputeTiling_cases [OF pos fit(1) best x]
  consider (small) "\<lfloor>x\<rfloor> < 1" | (large) "1 \<le> \<lfloor>x\<rfloor>" "tiles < \<lfloor>x\<rfloor> + 1"
    | (mid) "1 \<le> \<lfloor>x\<rfloor>" "\<lfloor>x\<rfloor> + 1 \<le> tiles"
    by linarith
  then have "\<exists>tr tc.
      ComputeTiling rws cols tiles = Some (tr, tc) \<and> tr * tc = tiles \<and>
      0 < tr \<and> tr dvd tiles \<and>
      (x < 1 \<longrightarrow> tr = 1 \<and> tc = tiles) \<and>
      (tiles \<le> \<lfloor>x\<rfloor> \<longrightarrow> tr = tiles \<and> tc = 1) \<and>
      (1 \<le> x \<and> \<lfloor>x\<rfloor> < tiles \<longrightarrow>
         (\<exists>lo up.
            0 < lo \<and> lo dvd tiles \<and> lo \<le> \<lfloor>x\<rfloor> \<and>
            (\<forall>d. 0 < d \<and> d dvd tiles \<and> d \<le> \<lfloor>x\<rfloor> \<longrightarrow> d \<le> lo) \<and>
            up dvd tiles \<and> \<lfloor>x\<rfloor> < up \<and>
            (\<forall>d. d dvd tiles \<and> \<lfloor>x\<rfloor> < d \<longrightarrow> up \<le> d) \<and>
            tr = (if wrap32 (wrap32 (up * lo) * cols) > tiles * rws then lo else up) \<and>
            (in32 (tiles * tiles * cols) \<longrightarrow> wrap32 (wrap32 (up * lo) * cols) = up * lo * cols)))"
  proof cases
    case small
    have ct: "ComputeTiling rws cols tiles = Some (1, tiles)" by (rule cases(1) [OF small])
    have lt: "x < 1" using small by (simp add: floor_less_iff)
    have "\<not> tiles \<le> \<lfloor>x\<rfloor>" using small pos by linarith
    moreover have "\<not> 1 \<le> x" using lt by simp
    ultimately show ?thesis using ct by (intro exI [of _ 1] exI [of _ tiles]) simp
  next
    case large
    have ct: "ComputeTiling rws cols tiles = Some (tiles, 1)" by (rule cases(2) [OF large])
    have "\<not> x < 1" using large(1) by (simp add: floor_less_iff)
    moreover have "\<not> \<lfloor>x\<rfloor> < tiles" using large(2) by simp
    ultimately show ?thesis using ct pos by (intro exI [of _ tiles] exI [of _ 1]) simp
  next
    case mid
    obtain lo where lo: "lower_divisor tiles \<lfloor>x\<rfloor> = Some lo" "1 \<le> lo" "lo \<le> \<lfloor>x\<rfloor>" "lo dvd tiles"
      "\<forall>e. lo < e \<and> e \<le> \<lfloor>x\<rfloor> \<longrightarrow> \<not> e dvd tiles"
      using lower_divisor_greatest [OF pos(3) mid(1)] by blast
    obtain up where up: "upper_divisor tiles (\<lfloor>x\<rfloor> + 1) = Some up" "\<lfloor>x\<rfloor> + 1 \<le> up" "up \<le> tiles"
      "up dvd tiles" "\<forall>e. \<lfloor>x\<rfloor> + 1 \<le> e \<and> e < up \<longrightarrow> \<not> e dvd tiles"
      using upper_divisor_least [OF pos(3) _ mid(2)] mid(1) by force
    have ct: "ComputeTiling rws cols tiles =
           (if wrap32 (wrap32 (up * lo) * cols) > tiles * rws
            then Some (lo, tiles sdiv lo) else Some (up, tiles sdiv up))"
      by (rule cases(3) [OF mid lo(1) up(1)])
    have up0: "0 < up" using up(2) mid(1) by linarith
    have lo_prod: "lo * (tiles sdiv lo) = tiles" using lo pos by (simp add: sdiv_pos)
    have up_prod: "up * (tiles sdiv up) = tiles" using up up0 pos by (simp add: sdiv_pos)
    have lo_best: "\<forall>d. 0 < d \<and> d dvd tiles \<and> d \<le> \<lfloor>x\<rfloor> \<longrightarrow> d \<le> lo"
      using lo(5) by (meson not_le)
    have up_best: "\<forall>d. d dvd tiles \<and> \<lfloor>x\<rfloor> < d \<longrightarrow> up \<le> d"
    proof (intro allI impI)
      fix d assume d: "d dvd tiles \<and> \<lfloor>x\<rfloor> < d"
      then have "\<lfloor>x\<rfloor> + 1 \<le> d" by simp
      with d up(5) show "up \<le> d" by (meson not_le)
    qed
    have rule: "in32 (tiles * tiles * cols) \<longrightarrow> wrap32 (wrap32 (up * lo) * cols) = up * lo * cols"
    proof
      assume that: "in32 (tiles * tiles * cols)"
      have a: "0 < up * lo" using up0 lo by simp
      have "up * lo \<le> tiles * tiles" using up(3) lo(3) mid(2) lo(2) up0
        by (intro mult_mono) simp_all
      then have b: "up * lo * cols \<le> tiles * tiles * cols" using pos by (intro mult_right_mono) simp_all
      have c: "up * lo \<le> up * lo * cols" using a pos by (simp add: mult_le_cancel_left1)
      have top: "tiles * tiles * cols \<le> 2147483647" using that unfolding in32_def by simp
      have "in32 (up * lo)" unfolding in32_def using a b c top by linarith
      moreover have "in32 (up * lo * cols)" unfolding in32_def using a b c top by linarith
      ultimately show "wrap32 (wrap32 (up * lo) * cols) = up * lo * cols" by (simp add: wrap32_id)
    qed
    define tr where "tr = (if wrap32 (wrap32 (up * lo) * cols) > tiles * rws then lo else up)"
    define tc where "tc = tiles sdiv tr"
    have c0: "ComputeTiling rws cols tiles = Some (tr, tc)"
      unfolding ct tr_def tc_def by simp
    have c1: "tr * tc = tiles" unfolding tr_def tc_def using lo_prod up_prod by simp
    have c2: "0 < tr" unfolding tr_def using lo(2) up0 by simp
    have c3: "tr dvd tiles" unfolding tr_def using lo(4) up(4) by simp
    have c4: "x < 1 \<longrightarrow> tr = 1 \<and> tc = tiles" using mid(1) by (simp add: floor_less_iff)
    have c5: "tiles \<le> \<lfloor>x\<rfloor> \<longrightarrow> tr = tiles \<and> tc = 1" using mid(2) by simp
    have lo0: "0 < lo" using lo(2) by simp
    have up1: "\<lfloor>x\<rfloor> < up" using up(2) by simp
    have body: "0 < lo \<and> lo dvd tiles \<and> lo \<le> \<lfloor>x\<rfloor> \<and>
            (\<forall>d. 0 < d \<and> d dvd tiles \<and> d \<le> \<lfloor>x\<rfloor> \<longrightarrow> d \<le> lo) \<and>
            up dvd tiles \<and> \<lfloor>x\<rfloor> < up \<and>
            (\<forall>d. d dvd tiles \<and> \<lfloor>x\<rfloor> < d \<longrightarrow> up \<le> d) \<and>
            tr = (if wrap32 (wrap32 (up * lo) * cols) > tiles * rws then lo else up) \<and>
            (in32 (tiles * tiles * cols) \<longrightarrow> wrap32 (wrap32 (up * lo) * cols) = up * lo * cols)"
      by (intro conjI) (fact lo0 lo(4) lo(3) lo_best up(4) up1 up_best tr_def rule)+
    have c6: "1 \<le> x \<and> \<lfloor>x\<rfloor> < tiles \<longrightarrow>
         (\<exists>lo up.
            0 < lo \<and> lo dvd tiles \<and> lo \<le> \<lfloor>x\<rfloor> \<and>
            (\<forall>d. 0 < d \<and> d dvd tiles \<and> d \<le> \<lfloor>x\<rfloor> \<longrightarrow> d \<le> lo) \<and>
            up dvd tiles \<and> \<lfloor>x\<rfloor> < up \<and>
            (\<forall>d. d dvd tiles \<and> \<lfloor>x\<rfloor> < d \<longrightarrow> up \<le> d) \<and>
            tr = (if wrap32 (wrap32 (up * lo) * cols) > tiles * rws then lo else up) \<and>
            (in32 (tiles * tiles * cols) \<longrightarrow> wrap32 (wrap32 (up * lo) * cols) = up * lo * cols))"
      by (rule impI, rule exI [of _ lo], rule exI [of _ up]) (rule body)
    have "ComputeTiling rws cols tiles = Some (tr, tc) \<and> tr * tc = tiles \<and>
      0 < tr \<and> tr dvd tiles \<and>
      (x < 1 \<longrightarrow> tr = 1 \<and> tc = tiles) \<and>
      (tiles \<le> \<lfloor>x\<rfloor> \<longrightarrow> tr = tiles \<and> tc = 1) \<and>
      (1 \<le> x \<and> \<lfloor>x\<rfloor> < tiles \<longrightarrow>
         (\<exists>lo up.
            0 < lo \<and> lo dvd tiles \<and> lo \<le> \<lfloor>x\<rfloor> \<and>
            (\<forall>d. 0 < d \<and> d dvd tiles \<and> d \<le> \<lfloor>x\<rfloor> \<longrightarrow> d \<le> lo) \<and>
            up dvd tiles \<and> \<lfloor>x\<rfloor> < up \<and>
            (\<forall>d. d dvd tiles \<and> \<lfloor>x\<rfloor> < d \<longrightarrow> up \<le> d) \<and>
            tr = (if wrap32 (wrap32 (up * lo) * cols) > tiles * rws then lo else up) \<and>
            (in32 (tiles * tiles * cols) \<longrightarrow> wrap32 (wrap32 (up * lo) * cols) = up * lo * cols)))"
      by (intro conjI) (fact c0 c1 c2 c3 c4 c5 c6)+
    then show ?thesis by (rule_tac x = tr in exI, rule_tac x = tc in exI)
  qed
  then obtain tr tc where res: "ComputeTiling rws cols tiles = Some (tr, tc) \<and> tr * tc = tiles \<and>
      0 < tr \<and> tr dvd tiles \<and>
      (x < 1 \<longrightarrow> tr = 1 \<and> tc = tiles) \<and>
      (tiles \<le> \<lfloor>x\<rfloor> \<longrightarrow> tr = tiles \<and> tc = 1) \<and>
      (1 \<le> x \<and> \<lfloor>x\<rfloor> < tiles \<longrightarrow>
         (\<exists>lo up.
            0 < lo \<and> lo dvd tiles \<and> lo \<le> \<lfloor>x\<rfloor> \<and>
            (\<forall>d. 0 < d \<and> d dvd tiles \<and> d \<le> \<lfloor>x\<rfloor> \<longrightarrow> d \<le> lo) \<and>
            up dvd tiles \<and> \<lfloor>x\<rfloor> < up \<and>
            (\<forall>d. d dvd tiles \<and> \<lfloor>x\<rfloor> < d \<longrightarrow> up \<le> d) \<and>
            tr = (if wrap32 (wrap32 (up * lo) * cols) > tiles * rws then lo else up) \<and>
            (in32 (tiles * tiles * cols) \<longrightarrow> wrap32 (wrap32 (up * lo) * cols) = up * lo * cols)))"
    by blast
  note all = conjI [OF best conjI [OF near(1) [unfolded f_def] conjI [OF near(2) [unfolded f_def] res]]]
  show ?thesis
    by (rule exI [of _ x], rule exI [of _ tr], rule exI [of _ tc]) (rule all)
qed

text \<open>
  The theorem at \<open>(H, W, N) = (100, 300, 6)\<close>, where \<open>f = \<surd>2\<close>: the result is a pair of
  product 6.
\<close>

theorem ComputeTiling_product_witness:
  "(0::int) < 100 \<and> (0::int) < 300 \<and> (0::int) < 6 \<and> in32 (6 * 100) \<and> in32 300 \<and>
   (\<exists>tr tc. ComputeTiling 100 300 6 = Some (tr, tc) \<and> tr * tc = 6 \<and> tr dvd 6)"
proof -
  have fits: "in32 (6 * 100)" "in32 300" by (simp_all add: in32_def)
  from ComputeTiling_product [of 100 300 6, OF _ _ _ fits]
  obtain tr tc where "ComputeTiling 100 300 6 = Some (tr, tc)" "tr * tc = 6" "tr dvd 6"
    by auto
  then show ?thesis using fits by auto
qed

text \<open>
  Claim C6 as worded fails at \<open>(H, W, N) = (99, 42, 42)\<close>, where \<open>f = \<surd>99\<close> lies between
  9 and 10: the result is \<open>(14, 3)\<close>, but the divisors 7 and 6 of 42 are both nearer
  to \<open>f\<close> than 14 is.
\<close>

theorem ComputeTiling_nearest_counterexample:
  "ComputeTiling 99 42 42 = Some (14, 3) \<and> (7::int) dvd 42 \<and> (6::int) dvd 42 \<and>
   \<bar>7 - sqrt (real_of_int (42 * 99) / real_of_int 42)\<bar> <
     \<bar>14 - sqrt (real_of_int (42 * 99) / real_of_int 42)\<bar> \<and>
   \<bar>6 - sqrt (real_of_int (42 * 99) / real_of_int 42)\<bar> <
     \<bar>14 - sqrt (real_of_int (42 * 99) / real_of_int 42)\<bar>"
proof -
  have root: "rnd 24 (- 126) 127 (sqrt 99) = Fin (of_int 10433199 * pow2 (3 - int 24 + 1))"
    by (rule rnd_sqrt_eval) (simp_all add: pow2_def power2_eq_square)
  have best: "sqrt32 (div32 (of_int32 (wrap32 (42 * 99))) (of_int32 42)) = Fin (10433199 / 1048576)"
  proof -
    have "div32 (of_int32 (wrap32 (42 * 99))) (of_int32 42) = Fin 99"
      by (simp add: wrap32_def flt_eval)
    then show ?thesis using root by (simp add: sqrt32_def round32_def pow2_def)
  qed
  have cast: "flt_to_int (Fin (10433199 / 1048576)) = Some 9"
  proof -
    have "\<lfloor>10433199 / 1048576 :: real\<rfloor> = 9" by (simp add: floor_eq_iff)
    then show ?thesis by (simp add: flt_to_int_def)
  qed
  have lo: "lower_divisor 42 9 = Some 7"
    by (simp add: lower_divisor.simps signed_modulo_int_def)
  have up: "upper_divisor 42 10 = Some 14"
    by (simp add: upper_divisor.simps signed_modulo_int_def)
  have ct: "ComputeTiling 99 42 42 = Some (14, 3)"
    unfolding ComputeTiling_def best Let_def cast
    by (simp add: lo up wrap32_def signed_divide_int_def)
  have f: "sqrt (real_of_int (42 * 99) / real_of_int 42) = sqrt 99" by simp
  have f1: "9 < sqrt 99" by (rule real_less_rsqrt) simp
  have f2: "sqrt 99 < 10" by (rule real_less_lsqrt) simp_all
  show ?thesis unfolding f using ct f1 f2 by simp
qed

subsection \<open>Shrinkage\<close>

lemma fold3_flatten:
  "fold (\<lambda>row. fold (\<lambda>col. fold (\<lambda>chan. f row col chan) [0..<C]) [0..<W]) [0..<H] s =
   fold (\<lambda>i. f (i div (W * C)) (i mod (W * C) div C) (i mod C)) [0..<H * (W * C)] s"
proof -
  have inner: "(\<lambda>row. fold (\<lambda>col. fold (\<lambda>chan. f row col chan) [0..<C]) [0..<W]) =
               (\<lambda>row. fold (\<lambda>q. f row (q div C) (q mod C)) [0..<W * C])"
    by (intro ext) (rule fold_nested_flatten)
  have "fold (\<lambda>row. fold (\<lambda>q. f row (q div C) (q mod C)) [0..<W * C]) [0..<H] s =
        fold (\<lambda>i. f (i div (W * C)) (i mod (W * C) div C) (i mod (W * C) mod C)) [0..<H * (W * C)] s"
    by (rule fold_nested_flatten [of "\<lambda>row q. f row (q div C) (q mod C)"])
  then show ?thesis unfolding inner by (simp add: mod_mod_cancel)
qed

lemma pos_decode:
  fixes i H W C :: nat
  assumes "i < H * (W * C)"
  shows "(i div (W * C) * W + i mod (W * C) div C) * C + i mod C = i"
    and "i div (W * C) < H" and "i mod (W * C) div C < W" and "i mod C < C"
proof -
  have wc: "0 < W * C" using assms by (cases "W * C") simp_all
  then have c: "0 < C" and w: "0 < W" by simp_all
  have "i mod (W * C) mod C = i mod C" by (simp add: mod_mod_cancel)
  then have "i mod (W * C) div C * C + i mod C = i mod (W * C)"
    by (metis div_mult_mod_eq)
  then have "(i div (W * C) * W + i mod (W * C) div C) * C + i mod C =
        i div (W * C) * (W * C) + i mod (W * C)"
    by (simp add: algebra_simps)
  also have "\<dots> = i" by (rule div_mult_mod_eq)
  finally show "(i div (W * C) * W + i mod (W * C) div C) * C + i mod C = i" .
  show "i div (W * C) < H" using assms wc by (simp add: less_mult_imp_div_less mult.commute)
  have "i mod (W * C) < W * C" using wc by simp
  then show "i mod (W * C) div C < W" by (simp add: less_mult_imp_div_less mult.commute)
  show "i mod C < C" using c by simp
qed

lemma fold_pointwise:
  "n \<le> length xs \<Longrightarrow>
   fold (\<lambda>i xs. xs[i := h i (xs ! i)]) [0..<n] xs = map (\<lambda>i. h i (xs ! i)) [0..<n] @ drop n xs"
proof (induction n)
  case 0
  then show ?case by simp
next
  case (Suc n)
  then have IH: "fold (\<lambda>i xs. xs[i := h i (xs ! i)]) [0..<n] xs =
      map (\<lambda>i. h i (xs ! i)) [0..<n] @ drop n xs" by simp
  have n: "n < length xs" using Suc.prems by simp
  have "(map (\<lambda>i. h i (xs ! i)) [0..<n] @ drop n xs)[n := h n ((map (\<lambda>i. h i (xs ! i)) [0..<n] @ drop n xs) ! n)]
      = map (\<lambda>i. h i (xs ! i)) [0..<n] @ (drop n xs)[0 := h n (xs ! n)]"
    using n by (simp add: list_update_append nth_append)
  also have "(drop n xs)[0 := h n (xs ! n)] = h n (xs ! n) # drop (Suc n) xs"
    using n by (simp add: Cons_nth_drop_Suc [symmetric])
  finally show ?case by (simp add: IH)
qed

text \<open>An in-place loop over all elements of an image, each computed from itself.\<close>

lemma image_pointwise:
  assumes "wf_image img"
  shows "fold (\<lambda>row. fold (\<lambda>col. fold (\<lambda>chan im.
             set_val im col row chan (F row col chan (val im col row chan)))
           [0..<channels img]) [0..<columns img]) [0..<rows img] img =
         img\<lparr>data := map (\<lambda>i. F (i div (columns img * channels img))
                                 (i mod (columns img * channels img) div channels img)
                                 (i mod channels img) (data img ! i))
                       [0..<length (data img)]\<rparr>"
proof -
  let ?W = "columns img" and ?C = "channels img" and ?H = "rows img"
  let ?n = "?H * (?W * ?C)"
  let ?h = "\<lambda>i. F (i div (?W * ?C)) (i mod (?W * ?C) div ?C) (i mod ?C)"
  have len: "length (data img) = ?n" using assms by (simp add: wf_image_def mult.assoc)
  have step: "\<And>is im. set is \<subseteq> {..<?n} \<Longrightarrow> columns im = ?W \<Longrightarrow> channels im = ?C \<Longrightarrow>
      fold (\<lambda>i im. set_val im (i mod (?W * ?C) div ?C) (i div (?W * ?C)) (i mod ?C)
                     (?h i (val im (i mod (?W * ?C) div ?C) (i div (?W * ?C)) (i mod ?C)))) is im =
      im\<lparr>data := fold (\<lambda>i xs. xs[i := ?h i (xs ! i)]) is (data im)\<rparr>"
  proof -
    fix "is" :: "nat list" and im :: Image
    show "set is \<subseteq> {..<?n} \<Longrightarrow> columns im = ?W \<Longrightarrow> channels im = ?C \<Longrightarrow>
      fold (\<lambda>i im. set_val im (i mod (?W * ?C) div ?C) (i div (?W * ?C)) (i mod ?C)
                     (?h i (val im (i mod (?W * ?C) div ?C) (i div (?W * ?C)) (i mod ?C)))) is im =
      im\<lparr>data := fold (\<lambda>i xs. xs[i := ?h i (xs ! i)]) is (data im)\<rparr>"
    proof (induction "is" arbitrary: im)
      case Nil
      then show ?case by simp
    next
      case (Cons i "is")
      have i: "i < ?n" using Cons.prems by simp
      have p: "pos im (i mod (?W * ?C) div ?C) (i div (?W * ?C)) (i mod ?C) = i"
        using pos_decode(1) [OF i] Cons.prems by (simp add: pos_def)
      have "set_val im (i mod (?W * ?C) div ?C) (i div (?W * ?C)) (i mod ?C)
                     (?h i (val im (i mod (?W * ?C) div ?C) (i div (?W * ?C)) (i mod ?C))) =
            im\<lparr>data := (data im)[i := ?h i (data im ! i)]\<rparr>"
        by (simp add: set_val_def val_def p)
      then show ?case using Cons by simp
    qed
  qed
  have "fold (\<lambda>row. fold (\<lambda>col. fold (\<lambda>chan im.
             set_val im col row chan (F row col chan (val im col row chan)))
           [0..<?C]) [0..<?W]) [0..<?H] img =
        img\<lparr>data := fold (\<lambda>i xs. xs[i := ?h i (xs ! i)]) [0..<?n] (data img)\<rparr>"
    unfolding fold3_flatten by (rule step) auto
  also have "fold (\<lambda>i xs. xs[i := ?h i (xs ! i)]) [0..<?n] (data img) =
      map (\<lambda>i. ?h i (data img ! i)) [0..<?n]"
    using fold_pointwise [of ?n "data img" ?h] len by simp
  finally show ?thesis by (simp add: len)
qed

lemma shrinkage_data:
  assumes wf: "wf_image (freq_re y_m)" "wf_image (freq_im y_m)"
    and dims: "rows (freq_im y_m) = rows (freq_re y_m)" "columns (freq_im y_m) = columns (freq_re y_m)"
      "channels (freq_im y_m) = channels (freq_re y_m)"
  shows "shrinkage fastexp sigma2 gamma_f k g_m y_m =
     y_m\<lparr>freq_re := (freq_re y_m)\<lparr>data :=
            map (\<lambda>i. shrunk fastexp gamma_f (fmul (mask_energy k) sigma2) g_m
                       (columns (freq_re y_m)) (channels (freq_re y_m)) i (data (freq_re y_m) ! i))
              [0..<length (data (freq_re y_m))]\<rparr>,
          freq_im := (freq_im y_m)\<lparr>data :=
            map (\<lambda>i. shrunk fastexp gamma_f (fmul (mask_energy k) sigma2) g_m
                       (columns (freq_re y_m)) (channels (freq_re y_m)) i (data (freq_im y_m) ! i))
              [0..<length (data (freq_im y_m))]\<rparr>\<rparr>"
proof -
  define W where "W = columns (freq_re y_m)"
  define C where "C = channels (freq_re y_m)"
  define h where "h = shrunk fastexp gamma_f (fmul (mask_energy k) sigma2) g_m W C"
  let ?H = "rows (freq_re y_m)"
  let ?n = "?H * (W * C)"
  let ?step = "\<lambda>i y_m.
           if i div (W * C) \<noteq> 0 \<or> i mod (W * C) div C \<noteq> 0
           then
             let G2 = fadd (fmul (val (freq_re g_m) (i mod (W * C) div C) (i div (W * C)) (i mod C))
                                 (val (freq_re g_m) (i mod (W * C) div C) (i div (W * C)) (i mod C)))
                           (fmul (val (freq_im g_m) (i mod (W * C) div C) (i div (W * C)) (i mod C))
                                 (val (freq_im g_m) (i mod (W * C) div C) (i div (W * C)) (i mod C)));
                 K = fastexp (fdiv (fmul (fneg gamma_f) (fmul (mask_energy k) sigma2)) G2);
                 y_m = y_m\<lparr>freq_re := set_val (freq_re y_m) (i mod (W * C) div C) (i div (W * C)) (i mod C)
                                         (fmul (val (freq_re y_m) (i mod (W * C) div C) (i div (W * C)) (i mod C)) K)\<rparr>;
                 y_m = y_m\<lparr>freq_im := set_val (freq_im y_m) (i mod (W * C) div C) (i div (W * C)) (i mod C)
                                         (fmul (val (freq_im y_m) (i mod (W * C) div C) (i div (W * C)) (i mod C)) K)\<rparr>
             in y_m
           else y_m"
  have len: "length (data (freq_re y_m)) = ?n" "length (data (freq_im y_m)) = ?n"
    using wf dims by (simp_all add: wf_image_def W_def C_def mult.assoc)
  have flat: "shrinkage fastexp sigma2 gamma_f k g_m y_m = fold ?step [0..<?n] y_m"
    unfolding shrinkage_def Let_def mask_energy_def [symmetric] W_def C_def
    by (rule fold3_flatten)
  have step: "fold ?step is m =
      m\<lparr>freq_re := (freq_re m)\<lparr>data := fold (\<lambda>i xs. xs[i := h i (xs ! i)]) is (data (freq_re m))\<rparr>,
        freq_im := (freq_im m)\<lparr>data := fold (\<lambda>i xs. xs[i := h i (xs ! i)]) is (data (freq_im m))\<rparr>\<rparr>"
    if "set is \<subseteq> {..<?n}" "columns (freq_re m) = W" "channels (freq_re m) = C"
      "columns (freq_im m) = W" "channels (freq_im m) = C" for "is" m
    using that
  proof (induction "is" arbitrary: m)
    case Nil
    then show ?case by simp
  next
    case (Cons i "is")
    have i: "i < ?n" using Cons.prems by simp
    have p: "pos (freq_re m) (i mod (W * C) div C) (i div (W * C)) (i mod C) = i"
        "pos (freq_im m) (i mod (W * C) div C) (i div (W * C)) (i mod C) = i"
      using pos_decode(1) [OF i] Cons.prems by (simp_all add: pos_def)
    have one: "?step i m =
        m\<lparr>freq_re := (freq_re m)\<lparr>data := (data (freq_re m))[i := h i (data (freq_re m) ! i)]\<rparr>,
          freq_im := (freq_im m)\<lparr>data := (data (freq_im m))[i := h i (data (freq_im m) ! i)]\<rparr>\<rparr>"
      by (simp add: Let_def set_val_def val_def p h_def shrunk_def shrink_factor_def)
    show ?case
      unfolding fold_Cons comp_def one
      using Cons.prems by (subst Cons.IH) simp_all
  qed
  have "fold ?step [0..<?n] y_m =
      y_m\<lparr>freq_re := (freq_re y_m)\<lparr>data := fold (\<lambda>i xs. xs[i := h i (xs ! i)]) [0..<?n] (data (freq_re y_m))\<rparr>,
        freq_im := (freq_im y_m)\<lparr>data := fold (\<lambda>i xs. xs[i := h i (xs ! i)]) [0..<?n] (data (freq_im y_m))\<rparr>\<rparr>"
    by (rule step) (auto simp: W_def C_def dims)
  moreover have "fold (\<lambda>i xs. xs[i := h i (xs ! i)]) [0..<?n] (data (freq_re y_m)) =
      map (\<lambda>i. h i (data (freq_re y_m) ! i)) [0..<?n]"
    using fold_pointwise [of ?n "data (freq_re y_m)" h] len by simp
  moreover have "fold (\<lambda>i xs. xs[i := h i (xs ! i)]) [0..<?n] (data (freq_im y_m)) =
      map (\<lambda>i. h i (data (freq_im y_m) ! i)) [0..<?n]"
    using fold_pointwise [of ?n "data (freq_im y_m)" h] len by simp
  ultimately show ?thesis unfolding flat len h_def W_def C_def by simp
qed

lemma pixel_index2:
  assumes "col < W" "ch < (C::nat)"
  shows "((row * W + col) * C + ch) div (W * C) = row"
    and "((row * W + col) * C + ch) mod (W * C) div C = col"
    and "((row * W + col) * C + ch) mod C = ch"
proof -
  have lt: "col * C + ch < W * C"
  proof -
    have "col * C + ch < col * C + C" using assms by simp
    also have "\<dots> = Suc col * C" by simp
    also have "\<dots> \<le> W * C" using assms by (intro mult_le_mono1) simp
    finally show ?thesis .
  qed
  have e: "(row * W + col) * C + ch = row * (W * C) + (col * C + ch)"
    by (simp add: algebra_simps)
  have pos: "0 < W * C" using lt by (cases "W * C") simp_all
  show "((row * W + col) * C + ch) div (W * C) = row"
    unfolding e using lt pos by (simp add: div_mult_self3)
  have "((row * W + col) * C + ch) mod (W * C) = col * C + ch"
    unfolding e using lt by (simp add: mod_mult_self3)
  then show "((row * W + col) * C + ch) mod (W * C) div C = col"
    using assms by simp
  show "((row * W + col) * C + ch) mod C = ch"
    using assms by simp
qed

lemma shrinkage_bins_core:
  assumes "wf_image (freq_re y_m)" "wf_image (freq_im y_m)"
    and "rows (freq_im y_m) = rows (freq_re y_m)" "columns (freq_im y_m) = columns (freq_re y_m)"
      "channels (freq_im y_m) = channels (freq_re y_m)"
    and "row < rows (freq_re y_m)" "col < columns (freq_re y_m)" "chan < channels (freq_re y_m)"
  shows "val (freq_re (shrinkage fastexp sigma2 gamma_f k g_m y_m)) col row chan =
           (if row = 0 \<and> col = 0 then val (freq_re y_m) col row chan
            else fmul (val (freq_re y_m) col row chan)
                   (fastexp (fdiv (fmul (fneg gamma_f) (fmul (mask_energy k) sigma2))
                      (fadd (fmul (val (freq_re g_m) col row chan) (val (freq_re g_m) col row chan))
                            (fmul (val (freq_im g_m) col row chan) (val (freq_im g_m) col row chan)))))) \<and>
         val (freq_im (shrinkage fastexp sigma2 gamma_f k g_m y_m)) col row chan =
           (if row = 0 \<and> col = 0 then val (freq_im y_m) col row chan
            else fmul (val (freq_im y_m) col row chan)
                   (fastexp (fdiv (fmul (fneg gamma_f) (fmul (mask_energy k) sigma2))
                      (fadd (fmul (val (freq_re g_m) col row chan) (val (freq_re g_m) col row chan))
                            (fmul (val (freq_im g_m) col row chan) (val (freq_im g_m) col row chan)))))) \<and>
         space_re (shrinkage fastexp sigma2 gamma_f k g_m y_m) = space_re y_m \<and>
         space_im (shrinkage fastexp sigma2 gamma_f k g_m y_m) = space_im y_m"
proof -
  let ?W = "columns (freq_re y_m)" and ?C = "channels (freq_re y_m)"
  let ?i = "(row * ?W + col) * ?C + chan"
  note sd = shrinkage_data [OF assms(1-5), of fastexp sigma2 gamma_f k g_m]
  have ire: "?i < length (data (freq_re y_m))"
    using pos_bound [OF assms(1) assms(6-8)] by (simp add: pos_def)
  have iim: "?i < length (data (freq_im y_m))"
    using pos_bound [OF assms(2)] assms(3-8) by (simp add: pos_def)
  note dec = pixel_index2 [OF assms(7,8), of row]
  have sh: "shrunk fastexp gamma_f (fmul (mask_energy k) sigma2) g_m ?W ?C ?i v =
      (if row = 0 \<and> col = 0 then v
       else fmul v (fastexp (fdiv (fmul (fneg gamma_f) (fmul (mask_energy k) sigma2))
                      (fadd (fmul (val (freq_re g_m) col row chan) (val (freq_re g_m) col row chan))
                            (fmul (val (freq_im g_m) col row chan) (val (freq_im g_m) col row chan))))))"
    for v
    unfolding shrunk_def dec shrink_factor_def by auto
  have vre: "val (freq_re y_m) col row chan = data (freq_re y_m) ! ?i"
    by (simp add: val_def pos_def)
  have vim: "val (freq_im y_m) col row chan = data (freq_im y_m) ! ?i"
    using assms(4,5) by (simp add: val_def pos_def)
  have 1: "val (freq_re (shrinkage fastexp sigma2 gamma_f k g_m y_m)) col row chan =
      shrunk fastexp gamma_f (fmul (mask_energy k) sigma2) g_m ?W ?C ?i (val (freq_re y_m) col row chan)"
    unfolding sd vre using ire by (simp add: val_def pos_def)
  have 2: "val (freq_im (shrinkage fastexp sigma2 gamma_f k g_m y_m)) col row chan =
      shrunk fastexp gamma_f (fmul (mask_energy k) sigma2) g_m ?W ?C ?i (val (freq_im y_m) col row chan)"
    unfolding sd vim using iim assms(4,5) by (simp add: val_def pos_def)
  have 3: "space_re (shrinkage fastexp sigma2 gamma_f k g_m y_m) = space_re y_m"
    "space_im (shrinkage fastexp sigma2 gamma_f k g_m y_m) = space_im y_m"
    unfolding sd by simp_all
  show ?thesis unfolding 1 2 3 sh by simp
qed

lemma mask_energy_finite:
  assumes "wf_image k" "finite_image k" "0 < channels k"
  shows "mask_energy k = Fin (\<Sum>row<rows k. \<Sum>col<columns k. (rval k col row 0)\<^sup>2)"
proof -
  have kv: "\<And>row col. row < rows k \<Longrightarrow> col < columns k \<Longrightarrow>
      val k col row 0 = Fin (rval k col row 0)"
    using assms by (intro val_finite) simp_all
  show ?thesis
    unfolding mask_energy_def
    by (subst nested_fold_fadd_sum [where f = "\<lambda>row col. (rval k col row 0)\<^sup>2"])
       (simp_all add: kv power2_eq_square)
qed

text \<open>
  Claim C2. The shrinkage leaves the bin \<open>(0, 0)\<close> of every channel of the spectrum of
  \<open>y_m\<close> unchanged and multiplies the real and the imaginary part of every other bin by
  \<open>K = fastexp (- gamma_f * sigma_f2 / |G|\<^sup>2)\<close>, where \<open>G\<close> is the bin of \<open>g_m\<close> and
  \<open>sigma_f2\<close> is the sum of the squares of the mask \<open>k\<close> times \<open>sigma2\<close>; for a finite mask
  that is \<open>\<sigma>\<^sup>2 \<Sum> k\<^sup>2\<close>.
\<close>

theorem shrinkage_bins:
  assumes "wf_image (freq_re y_m)" "wf_image (freq_im y_m)"
    and "rows (freq_im y_m) = rows (freq_re y_m)" "columns (freq_im y_m) = columns (freq_re y_m)"
      "channels (freq_im y_m) = channels (freq_re y_m)"
    and "row < rows (freq_re y_m)" "col < columns (freq_re y_m)" "chan < channels (freq_re y_m)"
  shows "val (freq_re (shrinkage fastexp sigma2 gamma_f k g_m y_m)) col row chan =
           (if row = 0 \<and> col = 0 then val (freq_re y_m) col row chan
            else fmul (val (freq_re y_m) col row chan)
                   (fastexp (fdiv (fmul (fneg gamma_f) (fmul (mask_energy k) sigma2))
                      (fadd (fmul (val (freq_re g_m) col row chan) (val (freq_re g_m) col row chan))
                            (fmul (val (freq_im g_m) col row chan) (val (freq_im g_m) col row chan)))))) \<and>
         val (freq_im (shrinkage fastexp sigma2 gamma_f k g_m y_m)) col row chan =
           (if row = 0 \<and> col = 0 then val (freq_im y_m) col row chan
            else fmul (val (freq_im y_m) col row chan)
                   (fastexp (fdiv (fmul (fneg gamma_f) (fmul (mask_energy k) sigma2))
                      (fadd (fmul (val (freq_re g_m) col row chan) (val (freq_re g_m) col row chan))
                            (fmul (val (freq_im g_m) col row chan) (val (freq_im g_m) col row chan)))))) \<and>
         (wf_image k \<and> finite_image k \<and> 0 < channels k \<longrightarrow>
            (\<forall>s2. fmul (mask_energy k) (Fin s2) =
                  Fin (s2 * (\<Sum>row<rows k. \<Sum>col<columns k. (rval k col row 0)\<^sup>2))))"
  using shrinkage_bins_core [OF assms, of fastexp sigma2 gamma_f k g_m] mask_energy_finite [of k]
  by (simp add: mult.commute)

text \<open>
  The theorem at a spectrum of two rows and two columns, with the identity in place of
  the exponential: bin \<open>(0, 0)\<close> keeps its value \<open>1\<close>, and bin \<open>(1, 0)\<close>, with the value
  \<open>2 + i\<close> and \<open>K = - 4 / 5\<close>, becomes \<open>- 8 / 5 - 4 / 5 i\<close>.
\<close>

theorem shrinkage_bins_witness:
  "wf_image (freq_re example_freq) \<and> wf_image (freq_im example_freq) \<and>
   rows (freq_im example_freq) = rows (freq_re example_freq) \<and>
   columns (freq_im example_freq) = columns (freq_re example_freq) \<and>
   channels (freq_im example_freq) = channels (freq_re example_freq) \<and>
   0 < rows (freq_re example_freq) \<and> 1 < columns (freq_re example_freq) \<and>
   0 < channels (freq_re example_freq) \<and>
   wf_image example_mask \<and> finite_image example_mask \<and> 0 < channels example_mask \<and>
   val (freq_re (shrinkage (\<lambda>x. x) (Fin 1) (Fin 1) example_mask example_freq example_freq)) 0 0 0 =
     Fin 1 \<and>
   val (freq_re (shrinkage (\<lambda>x. x) (Fin 1) (Fin 1) example_mask example_freq example_freq)) 1 0 0 =
     Fin (- 8 / 5) \<and>
   val (freq_im (shrinkage (\<lambda>x. x) (Fin 1) (Fin 1) example_mask example_freq example_freq)) 1 0 0 =
     Fin (- 4 / 5) \<and>
   fmul (mask_energy example_mask) (Fin 1) = Fin 4"
proof -
  have h: "wf_image (freq_re example_freq)" "wf_image (freq_im example_freq)"
    "rows (freq_im example_freq) = rows (freq_re example_freq)"
    "columns (freq_im example_freq) = columns (freq_re example_freq)"
    "channels (freq_im example_freq) = channels (freq_re example_freq)"
    by (simp_all add: example_freq_def wf_image_def)
  have b: "0 < rows (freq_re example_freq)" "1 < columns (freq_re example_freq)"
    "0 < columns (freq_re example_freq)" "0 < channels (freq_re example_freq)"
    by (simp_all add: example_freq_def)
  have m: "wf_image example_mask" "finite_image example_mask" "0 < channels example_mask"
    by (simp_all add: example_mask_def wf_image_def finite_image_def)
  have e: "mask_energy example_mask = Fin 4" by code_simp
  have v: "val (freq_re example_freq) 0 0 0 = Fin 1" "val (freq_re example_freq) 1 0 0 = Fin 2"
    "val (freq_im example_freq) 1 0 0 = Fin 1"
    by (simp_all add: example_freq_def val_def pos_def)
  have A: "val (freq_re (shrinkage (\<lambda>x. x) (Fin 1) (Fin 1) example_mask example_freq example_freq)) 0 0 0 =
      val (freq_re example_freq) 0 0 0"
    using shrinkage_bins [OF h b(1,3,4), of "\<lambda>x. x" "Fin 1" "Fin 1" example_mask example_freq]
    by simp
  have B: "val (freq_re (shrinkage (\<lambda>x. x) (Fin 1) (Fin 1) example_mask example_freq example_freq)) 1 0 0 =
      fmul (val (freq_re example_freq) 1 0 0)
        (fdiv (fmul (fneg (Fin 1)) (fmul (mask_energy example_mask) (Fin 1)))
           (fadd (fmul (val (freq_re example_freq) 1 0 0) (val (freq_re example_freq) 1 0 0))
                 (fmul (val (freq_im example_freq) 1 0 0) (val (freq_im example_freq) 1 0 0))))"
    and C: "val (freq_im (shrinkage (\<lambda>x. x) (Fin 1) (Fin 1) example_mask example_freq example_freq)) 1 0 0 =
      fmul (val (freq_im example_freq) 1 0 0)
        (fdiv (fmul (fneg (Fin 1)) (fmul (mask_energy example_mask) (Fin 1)))
           (fadd (fmul (val (freq_re example_freq) 1 0 0) (val (freq_re example_freq) 1 0 0))
                 (fmul (val (freq_im example_freq) 1 0 0) (val (freq_im example_freq) 1 0 0))))"
    using shrinkage_bins [OF h b(1,2,4), of "\<lambda>x. x" "Fin 1" "Fin 1" example_mask example_freq]
    by simp_all
  have vals: "val (freq_re (shrinkage (\<lambda>x. x) (Fin 1) (Fin 1) example_mask example_freq example_freq)) 0 0 0 =
      Fin 1"
    "val (freq_re (shrinkage (\<lambda>x. x) (Fin 1) (Fin 1) example_mask example_freq example_freq)) 1 0 0 =
      Fin (- 8 / 5)"
    "val (freq_im (shrinkage (\<lambda>x. x) (Fin 1) (Fin 1) example_mask example_freq example_freq)) 1 0 0 =
      Fin (- 4 / 5)"
    unfolding A B C v e by simp_all
  show ?thesis using h b m vals e by simp
qed

end
